theory Spec2Isabelle
  imports Main "HOL-Library.AList"
begin

section \<open>Values of the parsed documents\<close>

text \<open>
  A parsed localisation file is a Python value: \<open>json.loads\<close> yields \<open>dict\<close>,
  \<open>list\<close>, \<open>str\<close>, \<open>int\<close>, \<open>float\<close>, \<open>bool\<close> and \<open>None\<close>.
  A \<open>dict\<close> keeps its insertion order, so it is an association list (with distinct
  keys, see \<open>distinct_keys\<close>); a \<open>float\<close> is kept as mantissa and binary exponent, the
  merger only ever looks at its type.
\<close>

datatype pyval =
    is_str: PStr string
  | is_mapping: PDict (items_of: "(string \<times> pyval) list")
  | is_list: PList (elems_of: "pyval list")
  | PInt int
  | PFloat int int
  | PBool bool
  | PNone

type_synonym pydict = "(string \<times> pyval) list"

lemma size_mapping:
  "is_mapping v \<Longrightarrow> size_list (size_prod (\<lambda>k. 0) size) (items_of v) \<le> size v"
  by (cases v) simp_all

lemma size_sequence: "is_list v \<Longrightarrow> size_list size (elems_of v) \<le> size v"
  by (cases v) simp_all

text \<open>\<open>type(node).__name__\<close>\<close>

fun type_name :: "pyval \<Rightarrow> string" where
  "type_name (PStr s) = ''str''"
| "type_name (PDict d) = ''dict''"
| "type_name (PList l) = ''list''"
| "type_name (PInt n) = ''int''"
| "type_name (PFloat m e) = ''float''"
| "type_name (PBool b) = ''bool''"
| "type_name PNone = ''NoneType''"

text \<open>
  The exceptions the two routines can raise, each with its message.
  \<open>InvalidTranslationFile\<close> is the only class the program declares; \<open>AttributeError\<close> is
  what Python raises for \<open>.items()\<close> on a value that has none, \<open>IndexError\<close> for a list
  index out of range.
\<close>

datatype error =
    InvalidTranslationFile string
  | AttributeError string
  | IndexError

section \<open>Messages\<close>

definition quote :: "string \<Rightarrow> string" where
  "quote s = [CHR 0x27] @ s @ [CHR 0x27]"

definition digit :: "nat \<Rightarrow> char" where
  "digit n = ''0123456789'' ! n"

text \<open>Decimal rendering of an index, as an f-string does it.\<close>

function show_nat :: "nat \<Rightarrow> string" where
  "show_nat n = (if n < 10 then [digit n] else show_nat (n div 10) @ [digit (n mod 10)])"
  by pat_completeness auto
termination
  by (relation "measure id") auto

text \<open>\<open>f"{filename}: leaf values must be strings, got {type(node).__name__}"\<close>\<close>

definition leaf_msg :: "string \<Rightarrow> pyval \<Rightarrow> string" where
  "leaf_msg filename node = filename @ '': leaf values must be strings, got '' @ type_name node"

text \<open>\<open>f"Structure mismatch at key '{key}' between languages (file {filename})"\<close>\<close>

definition mismatch_msg :: "string \<Rightarrow> string \<Rightarrow> string" where
  "mismatch_msg key filename =
     ''Structure mismatch at key '' @ quote key @ '' between languages (file '' @ filename @ '')''"

text \<open>\<open>f"{filename}: unsupported array element type {type(item).__name__} at key '{key}[{i}]'"\<close>\<close>

definition unsupported_msg :: "string \<Rightarrow> pyval \<Rightarrow> string \<Rightarrow> nat \<Rightarrow> string" where
  "unsupported_msg filename item key i =
     filename @ '': unsupported array element type '' @ type_name item @ '' at key ''
       @ quote (key @ ''['' @ show_nat i @ '']'')"

text \<open>\<open>'str' object has no attribute 'items'\<close>\<close>

definition no_items_msg :: "pyval \<Rightarrow> string" where
  "no_items_msg v = quote (type_name v) @ '' object has no attribute '' @ quote ''items''"

section \<open>\<open>BaseMerger._validate_tree\<close>\<close>

text \<open>
  The two \<open>for\<close> loops are \<open>validate_values\<close> (over \<open>node.values()\<close>) and
  \<open>validate_list\<close>; an exception raised inside a loop ends it.
\<close>

fun validate_tree :: "pyval \<Rightarrow> string \<Rightarrow> error + unit"
  and validate_values :: "(string \<times> pyval) list \<Rightarrow> string \<Rightarrow> error + unit"
  and validate_list :: "pyval list \<Rightarrow> string \<Rightarrow> error + unit" where
  "validate_tree (PDict d) filename = validate_values d filename"
| "validate_tree (PList l) filename = validate_list l filename"
| "validate_tree (PStr s) filename = Inr ()"
| "validate_tree node filename = Inl (InvalidTranslationFile (leaf_msg filename node))"
| "validate_values [] filename = Inr ()"
| "validate_values ((k, v) # rest) filename =
     (case validate_tree v filename of
        Inl e \<Rightarrow> Inl e
      | Inr u \<Rightarrow> validate_values rest filename)"
| "validate_list [] filename = Inr ()"
| "validate_list (item # rest) filename =
     (case validate_tree item filename of
        Inl e \<Rightarrow> Inl e
      | Inr u \<Rightarrow> validate_list rest filename)"

section \<open>\<open>_merge_nested\<close>\<close>

text \<open>
  \<open>base.setdefault(key, default)\<close>: the value now stored at \<open>key\<close> (what
  \<open>base[key]\<close> reads next), and the dictionary, where a new key goes last.
\<close>

definition setdefault :: "pydict \<Rightarrow> string \<Rightarrow> pyval \<Rightarrow> pyval \<times> pydict" where
  "setdefault base key dflt =
     (case map_of base key of
        Some v \<Rightarrow> (v, base)
      | None \<Rightarrow> (dflt, AList.update key dflt base))"

text \<open>
  The accumulator is mutated in place; here every routine returns the new accumulator, or
  the exception. \<open>merge_items\<close> is the loop over \<open>incoming.items()\<close> with the
  \<open>isinstance\<close> chain of the source, \<open>merge_elems\<close> the loop
  \<open>for i, item in enumerate(value)\<close> on the list \<open>dst_list\<close>, from index \<open>i\<close> on;
  \<open>dst_list[i]\<close> out of range raises \<open>IndexError\<close>.
  Nothing of \<open>incoming\<close> that is stored in the accumulator is mutable and mutated later,
  so no aliasing arises and a tree value is a faithful accumulator.
\<close>

function (sequential) merge_items :: "pydict \<Rightarrow> (string \<times> pyval) list \<Rightarrow> string \<Rightarrow> string \<Rightarrow> error + pydict"
  and merge_elems ::
    "pyval list \<Rightarrow> nat \<Rightarrow> pyval list \<Rightarrow> string \<Rightarrow> string \<Rightarrow> string \<Rightarrow> error + pyval list" where
  "merge_items base [] lang filename = Inr base"
| "merge_items base ((key, v) # rest) lang filename =
     (if is_mapping v then
        (let (cur, base1) = setdefault base key (PDict []) in
         if \<not> is_mapping cur then Inl (InvalidTranslationFile (mismatch_msg key filename))
         else
           (case merge_items (items_of cur) (items_of v) lang filename of
              Inl e \<Rightarrow> Inl e
            | Inr sub \<Rightarrow> merge_items (AList.update key (PDict sub) base1) rest lang filename))
      else if is_list v then
        (let (dst_list, base1) = setdefault base key (PList []) in
         if \<not> is_list dst_list then Inl (InvalidTranslationFile (mismatch_msg key filename))
         else
           (case merge_elems
                   (elems_of dst_list
                      @ replicate (length (elems_of v) - length (elems_of dst_list)) (PDict []))
                   0 (elems_of v) key lang filename of
              Inl e \<Rightarrow> Inl e
            | Inr dst \<Rightarrow> merge_items (AList.update key (PList dst) base1) rest lang filename))
      else
        (let (leaf, base1) = setdefault base key (PDict []) in
         if \<not> is_mapping leaf then Inl (InvalidTranslationFile (mismatch_msg key filename))
         else
           merge_items (AList.update key (PDict (AList.update lang v (items_of leaf))) base1)
             rest lang filename))"
| "merge_elems dst_list i [] key lang filename = Inr dst_list"
| "merge_elems dst_list i (item # rest) key lang filename =
     (if \<not> i < length dst_list then Inl IndexError
      else
        (let slot = (if is_mapping (dst_list ! i) then items_of (dst_list ! i) else []) in
         if is_mapping item then
           (case merge_items slot (items_of item) lang filename of
              Inl e \<Rightarrow> Inl e
            | Inr slot' \<Rightarrow>
                merge_elems (dst_list[i := PDict slot']) (Suc i) rest key lang filename)
         else if is_str item then
           merge_elems (dst_list[i := PDict (AList.update lang item slot)]) (Suc i) rest
             key lang filename
         else Inl (InvalidTranslationFile (unsupported_msg filename item key i))))"
  by pat_completeness auto
termination
  by (relation "measure (case_sum
        (\<lambda>(base, items, lang, filename). size_list (size_prod (\<lambda>k. 0) size) items)
        (\<lambda>(dst_list, i, items, key, lang, filename). size_list size items))")
     (auto simp: less_Suc_eq_le trans_le_add1 dest!: size_mapping size_sequence)

text \<open>
  The entry point: \<open>incoming.items()\<close> exists only when \<open>incoming\<close> is a mapping.
\<close>

definition merge_nested :: "pydict \<Rightarrow> pyval \<Rightarrow> string \<Rightarrow> string \<Rightarrow> error + pydict" where
  "merge_nested base incoming lang filename =
     (case incoming of
        PDict items \<Rightarrow> merge_items base items lang filename
      | other \<Rightarrow> Inl (AttributeError (no_items_msg other)))"

section \<open>The merge loop of the drivers\<close>

text \<open>
  \<open>JsonMerger.merge\<close>, \<open>YamlMerger.merge\<close> and \<open>JsMerger.merge\<close> run the same loop
  over the files of the directory: \<open>lang = file.stem\<close>, the payload is parsed, validated
  and merged into \<open>merged\<close>, and the first exception ends the run. Parsing is outside the
  model: a file is given as its language tag, its name and its parsed payload (for YAML,
  after \<open>or {}\<close> has replaced an empty document), in the order of the enumeration.
\<close>

fun merge_loop :: "pydict \<Rightarrow> (string \<times> string \<times> pyval) list \<Rightarrow> error + pydict" where
  "merge_loop merged [] = Inr merged"
| "merge_loop merged ((lang, filename, payload) # files) =
     (case validate_tree payload filename of
        Inl e \<Rightarrow> Inl e
      | Inr u \<Rightarrow>
          (case merge_nested merged payload lang filename of
             Inl e \<Rightarrow> Inl e
           | Inr merged' \<Rightarrow> merge_loop merged' files))"

definition merge_run :: "(string \<times> string \<times> pyval) list \<Rightarrow> error + pydict" where
  "merge_run files = merge_loop [] files"

section \<open>Notions of the specification\<close>

text \<open>All nodes of a tree, the tree itself first, in the order of a traversal.\<close>

fun nodes :: "pyval \<Rightarrow> pyval list"
  and nodes_values :: "(string \<times> pyval) list \<Rightarrow> pyval list"
  and nodes_elems :: "pyval list \<Rightarrow> pyval list" where
  "nodes (PDict d) = PDict d # nodes_values d"
| "nodes (PList l) = PList l # nodes_elems l"
| "nodes v = [v]"
| "nodes_values [] = []"
| "nodes_values ((k, v) # rest) = nodes v @ nodes_values rest"
| "nodes_elems [] = []"
| "nodes_elems (v # rest) = nodes v @ nodes_elems rest"

text \<open>A node is a map, a sequence or a string.\<close>

definition tree_node :: "pyval \<Rightarrow> bool" where
  "tree_node v = (is_mapping v \<or> is_list v \<or> is_str v)"

text \<open>A Document Tree: every node is a map, a sequence or a string.\<close>

definition valid_tree :: "pyval \<Rightarrow> bool" where
  "valid_tree t = list_all tree_node (nodes t)"

text \<open>The first node of a traversal that is none of the three.\<close>

definition first_foreign :: "pyval list \<Rightarrow> pyval option" where
  "first_foreign ns = find (\<lambda>n. \<not> tree_node n) ns"

text \<open>A message cites a word when the word occurs in it.\<close>

fun cites :: "string \<Rightarrow> string \<Rightarrow> bool" where
  "cites w [] = (w = [])"
| "cites w (c # cs) = (take (length w) (c # cs) = w \<or> cites w cs)"

text \<open>
  The failure kinds of the specification are one exception class in the program, told
  apart by the message; this is the structure mismatch.
\<close>

definition StructureMismatch :: "string \<Rightarrow> string \<Rightarrow> error" where
  "StructureMismatch key filename = InvalidTranslationFile (mismatch_msg key filename)"

section \<open>One step of each loop\<close>

text \<open>
  What one pass of the loop over \<open>incoming.items()\<close> stores at \<open>key\<close>, from what the
  accumulator holds there (\<open>None\<close>: the key is new), and what one pass of the loop over
  the array stores in a slot. They are derived from \<open>merge_items\<close> and \<open>merge_elems\<close>
  (lemmas \<open>merge_items_Cons\<close> and \<open>merge_elems_Cons\<close>).
\<close>

definition cur_or :: "pyval option \<Rightarrow> pyval \<Rightarrow> pyval" where
  "cur_or old dflt = (case old of None \<Rightarrow> dflt | Some c \<Rightarrow> c)"

definition merge_value ::
  "pyval option \<Rightarrow> pyval \<Rightarrow> string \<Rightarrow> string \<Rightarrow> string \<Rightarrow> error + pyval" where
  "merge_value old v key lang filename =
     (if is_mapping v then
        (if \<not> is_mapping (cur_or old (PDict [])) then
           Inl (InvalidTranslationFile (mismatch_msg key filename))
         else map_sum id PDict
                (merge_items (items_of (cur_or old (PDict []))) (items_of v) lang filename))
      else if is_list v then
        (if \<not> is_list (cur_or old (PList [])) then
           Inl (InvalidTranslationFile (mismatch_msg key filename))
         else map_sum id PList
                (merge_elems
                   (elems_of (cur_or old (PList []))
                      @ replicate (length (elems_of v) - length (elems_of (cur_or old (PList []))))
                          (PDict []))
                   0 (elems_of v) key lang filename))
      else
        (if \<not> is_mapping (cur_or old (PDict [])) then
           Inl (InvalidTranslationFile (mismatch_msg key filename))
         else Inr (PDict (AList.update lang v (items_of (cur_or old (PDict [])))))))"

definition slot_of :: "pyval \<Rightarrow> pydict" where
  "slot_of cur = (if is_mapping cur then items_of cur else [])"

definition merge_slot ::
  "pyval \<Rightarrow> pyval \<Rightarrow> string \<Rightarrow> nat \<Rightarrow> string \<Rightarrow> string \<Rightarrow> error + pyval" where
  "merge_slot cur item key i lang filename =
     (if is_mapping item then
        map_sum id PDict (merge_items (slot_of cur) (items_of item) lang filename)
      else if is_str item then Inr (PDict (AList.update lang item (slot_of cur)))
      else Inl (InvalidTranslationFile (unsupported_msg filename item key i)))"

lemma merge_items_Cons:
  "merge_items base ((key, v) # rest) lang filename =
     (case merge_value (map_of base key) v key lang filename of
        Inl e \<Rightarrow> Inl e
      | Inr v' \<Rightarrow> merge_items (AList.update key v' base) rest lang filename)"
  by (cases "map_of base key")
     (auto simp: merge_value_def setdefault_def cur_or_def split: sum.splits)

lemma merge_elems_Cons:
  "merge_elems dst i (item # rest) key lang filename =
     (if \<not> i < length dst then Inl IndexError
      else case merge_slot (dst ! i) item key i lang filename of
             Inl e \<Rightarrow> Inl e
           | Inr s \<Rightarrow> merge_elems (dst[i := s]) (Suc i) rest key lang filename)"
  by (auto simp: merge_slot_def slot_of_def Let_def split: sum.splits)

declare merge_items.simps(2) [simp del] merge_elems.simps(2) [simp del]

text \<open>Induction along the two loops, for properties of every accumulator.\<close>

lemma merge_induct [case_names Nil Cons ENil ECons]:
  assumes nil: "\<And>base. P base []"
    and cons: "\<And>base key v rest.
        (\<And>sub. is_mapping v \<Longrightarrow> P sub (items_of v)) \<Longrightarrow>
        (\<And>dst. is_list v \<Longrightarrow> Q dst 0 (elems_of v) key) \<Longrightarrow>
        (\<And>b. P b rest) \<Longrightarrow> P base ((key, v) # rest)"
    and enil: "\<And>dst i key. Q dst i [] key"
    and econs: "\<And>dst i item rest key.
        (\<And>slot. is_mapping item \<Longrightarrow> P slot (items_of item)) \<Longrightarrow>
        (\<And>d. Q d (Suc i) rest key) \<Longrightarrow> Q dst i (item # rest) key"
  shows "P base items" and "Q dst i l key"
proof -
  have elems: "Q dst i l key"
    if sub: "\<And>item slot. item \<in> set l \<Longrightarrow> is_mapping item \<Longrightarrow> P slot (items_of item)"
    for dst i l key
    using sub
  proof (induction l arbitrary: dst i)
    case Nil
    show ?case by (rule enil)
  next
    case (Cons item rest)
    show ?case
    proof (rule econs)
      show "P slot (items_of item)" if "is_mapping item" for slot
        using that by (simp add: Cons.prems)
      show "Q d (Suc i) rest key" for d
        by (rule Cons.IH) (simp add: Cons.prems)
    qed
  qed
  have items: "P base items" for base items
  proof (induction "size_list (size_prod (\<lambda>k::string. 0::nat) (size :: pyval \<Rightarrow> nat)) items"
      arbitrary: base items rule: less_induct)
    case less
    show ?case
    proof (cases items)
      case Nil
      then show ?thesis by (simp add: nil)
    next
      case (Cons p rest)
      obtain key v where p: "p = (key, v)" by (cases p)
      have 1: "P sub (items_of v)" if "is_mapping v" for sub
        using that by (intro less) (auto simp: Cons p less_Suc_eq_le dest!: size_mapping)
      have 3: "P b rest" for b
        by (intro less) (auto simp: Cons p)
      have 2: "Q dst 0 (elems_of v) key" if l: "is_list v" for dst
      proof (rule elems)
        fix item slot
        assume "item \<in> set (elems_of v)" "is_mapping item"
        then have "size_list (size_prod (\<lambda>k. 0) size) (items_of item) \<le> size item"
          and "size item \<le> size_list size (elems_of v)"
          by (auto dest: size_mapping simp: size_list_estimation')
        with l show "P slot (items_of item)"
          by (intro less) (auto simp: Cons p less_Suc_eq_le dest!: size_sequence)
      qed
      show ?thesis
        unfolding Cons p by (rule cons) (fact 1 2 3)+
    qed
  qed
  show "P base items" by (rule items)
  show "Q dst i l key" by (rule elems) (rule items)
qed

section \<open>The exceptions of the merge\<close>

lemma no_attribute_error:
  shows "merge_items base items lang fn \<noteq> Inl (AttributeError m)"
    and "merge_elems dst i l key lang fn \<noteq> Inl (AttributeError m)"
proof (induction base items and dst i l key rule: merge_induct)
  case (Cons base key v rest)
  then show ?case
    by (auto simp: merge_items_Cons merge_value_def map_sum_def split: sum.splits if_splits)
next
  case (ECons dst i item rest key)
  then show ?case
    by (auto simp: merge_elems_Cons merge_slot_def map_sum_def split: sum.splits if_splits)
qed simp_all

lemma merge_elems_length:
  "merge_elems dst i l key lang fn = Inr dst' \<Longrightarrow> length dst' = length dst"
  by (induction l arbitrary: dst i) (auto simp: merge_elems_Cons split: if_splits sum.splits)

text \<open>The list has been grown before the loop starts, so no index is out of range.\<close>

lemma no_index_error:
  shows "merge_items base items lang fn \<noteq> Inl IndexError"
    and "i + length l \<le> length dst \<Longrightarrow> merge_elems dst i l key lang fn \<noteq> Inl IndexError"
proof (induction base items and dst i l key rule: merge_induct)
  case (Cons base key v rest)
  then show ?case
    by (auto simp: merge_items_Cons merge_value_def map_sum_def split: sum.splits if_splits)
next
  case (ECons dst i item rest key)
  then show ?case
    by (auto simp: merge_elems_Cons merge_slot_def map_sum_def split: sum.splits if_splits)
qed simp_all

section \<open>The end-to-end example\<close>

text \<open>
  \<open>en.json\<close> and \<open>ru.json\<close> of the example. The Cyrillic strings are their UTF-8
  bytes; the merge never looks inside a string.
\<close>

definition en_json :: pyval where
  "en_json = PDict [(''greet'', PStr ''Hi''), (''items'', PList [PStr ''a'', PStr ''b''])]"

definition privet :: string where
  "privet = [CHR 0xD0, CHR 0x9F, CHR 0xD1, CHR 0x80, CHR 0xD0, CHR 0xB8,
             CHR 0xD0, CHR 0xB2, CHR 0xD0, CHR 0xB5, CHR 0xD1, CHR 0x82]"

definition kha :: string where
  "kha = [CHR 0xD1, CHR 0x85]"

definition u_cyr :: string where
  "u_cyr = [CHR 0xD1, CHR 0x83]"

definition ru_json :: pyval where
  "ru_json = PDict [(''greet'', PStr privet),
                    (''items'', PList [PStr kha, PStr u_cyr, PStr ''z''])]"

definition en_ru_merged :: pydict where
  "en_ru_merged =
     [(''greet'', PDict [(''en'', PStr ''Hi''), (''ru'', PStr privet)]),
      (''items'', PList [PDict [(''en'', PStr ''a''), (''ru'', PStr kha)],
                         PDict [(''en'', PStr ''b''), (''ru'', PStr u_cyr)],
                         PDict [(''ru'', PStr ''z'')]])]"

definition en_merged :: pydict where
  "en_merged =
     [(''greet'', PDict [(''en'', PStr ''Hi'')]),
      (''items'', PList [PDict [(''en'', PStr ''a'')], PDict [(''en'', PStr ''b'')]])]"

text \<open>
  C1. Both trees of the example pass the validation; merging \<open>en.json\<close> with language
  \<open>en\<close> into the empty accumulator and then \<open>ru.json\<close> with language \<open>ru\<close> into the
  result yields exactly the merged tree of the example, and so does the loop of the
  driver on the two files.
\<close>

theorem end_to_end_example:
  "validate_tree en_json ''en.json'' = Inr ()
   \<and> validate_tree ru_json ''ru.json'' = Inr ()
   \<and> merge_nested [] en_json ''en'' ''en.json'' = Inr en_merged
   \<and> merge_nested en_merged ru_json ''ru'' ''ru.json'' = Inr en_ru_merged
   \<and> merge_run [(''en'', ''en.json'', en_json), (''ru'', ''ru.json'', ru_json)]
       = Inr en_ru_merged"
  by (simp add: merge_run_def merge_nested_def merge_items_Cons merge_elems_Cons
        merge_value_def merge_slot_def slot_of_def cur_or_def
        en_json_def ru_json_def en_merged_def en_ru_merged_def)

section \<open>The validator\<close>

lemma find_append_case:
  "find P (xs @ ys) = (case find P xs of None \<Rightarrow> find P ys | Some x \<Rightarrow> Some x)"
  by (induction xs) auto

lemma validate_first_foreign:
  shows "validate_tree t fn =
           (case first_foreign (nodes t) of
              None \<Rightarrow> Inr ()
            | Some n \<Rightarrow> Inl (InvalidTranslationFile (leaf_msg fn n)))"
    and "validate_values d fn =
           (case first_foreign (nodes_values d) of
              None \<Rightarrow> Inr ()
            | Some n \<Rightarrow> Inl (InvalidTranslationFile (leaf_msg fn n)))"
    and "validate_list l fn =
           (case first_foreign (nodes_elems l) of
              None \<Rightarrow> Inr ()
            | Some n \<Rightarrow> Inl (InvalidTranslationFile (leaf_msg fn n)))"
  by (induction t fn and d fn and l fn rule: validate_tree_validate_values_validate_list.induct)
     (simp_all add: first_foreign_def tree_node_def find_append_case split: option.splits)

lemma first_foreign_None: "(first_foreign ns = None) = list_all tree_node ns"
  by (auto simp: first_foreign_def find_None_iff list_all_iff)

lemma validate_valid: "(validate_tree t fn = Inr ()) = valid_tree t"
  unfolding valid_tree_def first_foreign_None [symmetric]
  by (simp add: validate_first_foreign(1) split: option.splits)

text \<open>
  C6. \<open>_validate_tree\<close> returns normally exactly on the trees all of whose nodes are maps,
  sequences or strings, the empty map, the empty sequence and the empty string among
  them. On every other tree it raises \<open>InvalidTranslationFile\<close> for the first node of the
  traversal that is none of the three, with the message made of the file name and of the
  name of that node's type. It is a total function of the tree: either the whole tree is
  accepted or the exception is the result.
\<close>

theorem validate_tree_exact:
  "validate_tree t filename =
     (case first_foreign (nodes t) of
        None \<Rightarrow> Inr ()
      | Some node \<Rightarrow>
          Inl (InvalidTranslationFile
                 (filename @ '': leaf values must be strings, got '' @ type_name node)))
   \<and> (validate_tree t filename = Inr ()) = valid_tree t
   \<and> validate_tree (PDict []) filename = Inr ()
   \<and> validate_tree (PList []) filename = Inr ()
   \<and> validate_tree (PStr []) filename = Inr ()"
proof -
  have "validate_tree t filename =
     (case first_foreign (nodes t) of
        None \<Rightarrow> Inr ()
      | Some node \<Rightarrow>
          Inl (InvalidTranslationFile
                 (filename @ '': leaf values must be strings, got '' @ type_name node)))"
    by (simp add: validate_first_foreign(1) leaf_msg_def split: option.splits)
  then show ?thesis
    by (intro conjI) (assumption, rule validate_valid, simp_all)
qed

theorem validate_tree_exact_witness:
  "validate_tree (PDict [(''a'', PList [PStr ''x'', PBool True]), (''b'', PInt 1)]) ''en.json''
     = Inl (InvalidTranslationFile ''en.json: leaf values must be strings, got bool'')
   \<and> \<not> valid_tree (PDict [(''a'', PList [PStr ''x'', PBool True]), (''b'', PInt 1)])
   \<and> validate_tree (PDict [(''a'', PList [PStr ''x'', PDict []]), (''b'', PStr [])]) ''en.json''
       = Inr ()
   \<and> valid_tree (PDict [(''a'', PList [PStr ''x'', PDict []]), (''b'', PStr [])])"
  using
    validate_tree_exact
      [of "PDict [(''a'', PList [PStr ''x'', PBool True]), (''b'', PInt 1)]" "''en.json''"]
    validate_tree_exact
      [of "PDict [(''a'', PList [PStr ''x'', PDict []]), (''b'', PStr [])]" "''en.json''"]
  by (simp add: first_foreign_def tree_node_def)

lemma cites_prefix: "cites w (w @ b)"
proof (cases "w @ b")
  case Nil
  then show ?thesis by simp
next
  case (Cons c cs)
  have "take (length w) (w @ b) = w" by simp
  then show ?thesis unfolding Cons by simp
qed

lemma cites_append: "cites w m \<Longrightarrow> cites w (a @ m)"
  by (induction a) auto

lemma cites_mid: "cites w (a @ w @ b)"
  by (simp add: cites_append cites_prefix)

text \<open>
  C7, as the specification states it, fails: validating \<open>{"count": 5}\<close> of \<open>en.json\<close>
  raises the exception with the message
  \<open>en.json: leaf values must be strings, got int\<close>, in which the key \<open>count\<close> does not
  occur.
\<close>

theorem count_key_not_cited:
  "validate_tree (PDict [(''count'', PInt 5)]) ''en.json''
     = Inl (InvalidTranslationFile ''en.json: leaf values must be strings, got int'')
   \<and> \<not> cites ''count'' ''en.json: leaf values must be strings, got int''"
  by (simp add: leaf_msg_def)

text \<open>
  C7, amended. Validating a tree with the one entry \<open>key: n\<close>, \<open>n\<close> an integer, raises
  \<open>InvalidTranslationFile\<close> with a message that is the file name followed by
  \<open>: leaf values must be strings, got int\<close>: it cites the file and the type found, and
  it is the same for every key.
\<close>

theorem invalid_leaf_message:
  "validate_tree (PDict [(key, PInt n)]) filename
     = Inl (InvalidTranslationFile (filename @ '': leaf values must be strings, got int''))
   \<and> cites filename (filename @ '': leaf values must be strings, got int'')
   \<and> cites ''int'' (filename @ '': leaf values must be strings, got int'')"
  using cites_mid [of "''int''" "filename @ '': leaf values must be strings, got ''" "[]"]
  by (simp add: leaf_msg_def cites_prefix)

section \<open>The entry point of the merge\<close>

lemma valid_not_mapping:
  "valid_tree t \<Longrightarrow> \<not> is_mapping t \<Longrightarrow> is_str t \<or> is_list t"
  by (cases t) (auto simp: valid_tree_def tree_node_def)

text \<open>
  C10. A validated document that is not a map is a bare string or a bare sequence; it
  passes \<open>_validate_tree\<close>, and \<open>_merge_nested\<close> on it raises \<open>AttributeError\<close> (there
  is no \<open>.items()\<close>), which is not the exception class of the program. On a map the
  merge raises neither \<open>AttributeError\<close> nor \<open>IndexError\<close>: it returns the accumulator
  or raises \<open>InvalidTranslationFile\<close>.
\<close>

theorem bare_document:
  "(valid_tree t \<and> \<not> is_mapping t \<longrightarrow>
      (is_str t \<or> is_list t)
      \<and> validate_tree t filename = Inr ()
      \<and> merge_nested base t lang filename = Inl (AttributeError (no_items_msg t)))
   \<and> (is_mapping t \<longrightarrow>
        merge_nested base t lang filename \<noteq> Inl IndexError
        \<and> (\<forall>m. merge_nested base t lang filename \<noteq> Inl (AttributeError m)))
   \<and> AttributeError (no_items_msg t) \<noteq> InvalidTranslationFile m"
proof -
  have "validate_tree t filename = Inr ()" if "valid_tree t"
    using that by (simp add: validate_valid)
  moreover have "merge_nested base t lang filename = Inl (AttributeError (no_items_msg t))"
    if "\<not> is_mapping t"
    using that by (cases t) (simp_all add: merge_nested_def)
  moreover have "merge_nested base t lang filename \<noteq> Inl IndexError"
    and "merge_nested base t lang filename \<noteq> Inl (AttributeError m')" if "is_mapping t" for m'
    using that by (cases t; simp add: merge_nested_def no_index_error(1) no_attribute_error(1))+
  ultimately show ?thesis
    by (auto dest: valid_not_mapping)
qed

theorem bare_document_witness:
  "valid_tree (PList [PStr ''a'']) \<and> \<not> is_mapping (PList [PStr ''a''])
   \<and> validate_tree (PList [PStr ''a'']) ''en.json'' = Inr ()
   \<and> merge_nested [] (PList [PStr ''a'']) ''en'' ''en.json''
       = Inl (AttributeError ([CHR 0x27] @ ''list'' @ [CHR 0x27] @ '' object has no attribute ''
                                @ [CHR 0x27] @ ''items'' @ [CHR 0x27]))
   \<and> valid_tree (PStr ''hello'') \<and> \<not> is_mapping (PStr ''hello'')
   \<and> validate_tree (PStr ''hello'') ''en.json'' = Inr ()
   \<and> merge_nested [] (PStr ''hello'') ''en'' ''en.json''
       = Inl (AttributeError ([CHR 0x27] @ ''str'' @ [CHR 0x27] @ '' object has no attribute ''
                                @ [CHR 0x27] @ ''items'' @ [CHR 0x27]))
   \<and> is_mapping en_json
   \<and> merge_nested [] en_json ''en'' ''en.json'' \<noteq> Inl IndexError"
  using
    bare_document [where t = "PList [PStr ''a'']" and filename = "''en.json''"
      and base = "[]" and lang = "''en''"]
    bare_document [where t = "PStr ''hello''" and filename = "''en.json''"
      and base = "[]" and lang = "''en''"]
    bare_document [where t = en_json and filename = "''en.json''"
      and base = "[]" and lang = "''en''"]
  by (simp add: valid_tree_def tree_node_def no_items_msg_def quote_def en_json_def)

section \<open>Keys of the accumulator\<close>

lemma merge_items_append:
  "merge_items base (xs @ ys) lang fn =
     (case merge_items base xs lang fn of
        Inl e \<Rightarrow> Inl e
      | Inr b \<Rightarrow> merge_items b ys lang fn)"
  by (induction xs arbitrary: base) (auto simp: merge_items_Cons split: sum.splits)

lemma merge_items_other_key:
  "merge_items base items lang fn = Inr base' \<Longrightarrow> key \<notin> fst ` set items \<Longrightarrow>
     map_of base' key = map_of base key"
  by (induction items arbitrary: base)
     (auto simp: merge_items_Cons AList.update_conv' split: sum.splits)


lemma merge_items_distinct:
  "merge_items base items lang fn = Inr base' \<Longrightarrow> distinct (map fst base) \<Longrightarrow>
     distinct (map fst base')"
  by (induction items arbitrary: base)
     (auto simp: merge_items_Cons AList.distinct_update split: sum.splits)

lemma merge_value_string:
  "merge_value old (PStr s) key lang fn =
     (if is_mapping (cur_or old (PDict []))
      then Inr (PDict (AList.update lang (PStr s) (items_of (cur_or old (PDict [])))))
      else Inl (InvalidTranslationFile (mismatch_msg key fn)))"
  by (simp add: merge_value_def)

section \<open>A string where the accumulator holds a value\<close>

text \<open>
  C2, as the specification states it, fails: after \<open>en.json\<close> with an object at
  \<open>title\<close>, merging \<open>ru.json\<close> with a string at \<open>title\<close> raises nothing. The
  accumulator holds a map at \<open>title\<close>, as it would for a string leaf, and the string is
  stored in it under \<open>ru\<close>.
\<close>

theorem object_then_string_merges:
  "merge_run [(''en'', ''en.json'', PDict [(''title'', PDict [(''x'', PStr ''X'')])]),
              (''ru'', ''ru.json'', PDict [(''title'', PStr ''T'')])]
     = Inr [(''title'', PDict [(''x'', PDict [(''en'', PStr ''X'')]), (''ru'', PStr ''T'')])]"
  by (simp add: merge_run_def merge_nested_def merge_items_Cons merge_value_def cur_or_def)

text \<open>
  C2, amended. A string at \<open>key\<close> of the incoming tree, where the accumulator holds a
  value that is not a map (a sequence) and the entries before it merge without touching
  \<open>key\<close>, ends the merge with the structure mismatch that names the key and the file.
  Where the accumulator holds a map at \<open>key\<close>, be it the map of an object of an earlier
  file, the merge succeeds and stores the string in that map under the language tag.
\<close>

theorem string_over_existing_value:
  "(merge_items base pre lang filename = Inr mid \<and> key \<notin> fst ` set pre
      \<and> map_of base key = Some cur \<and> \<not> is_mapping cur \<longrightarrow>
        merge_nested base (PDict (pre @ (key, PStr s) # post)) lang filename
          = Inl (StructureMismatch key filename)
        \<and> cites key (mismatch_msg key filename) \<and> cites filename (mismatch_msg key filename))
   \<and> (map_of base key = Some cur \<and> is_mapping cur \<longrightarrow>
        merge_nested base (PDict [(key, PStr s)]) lang filename
          = Inr (AList.update key (PDict (AList.update lang (PStr s) (items_of cur))) base))"
proof -
  have "cites key (mismatch_msg key filename)"
    using cites_mid [of key "''Structure mismatch at key '' @ [CHR 0x27]"]
    by (simp add: mismatch_msg_def quote_def)
  moreover have "cites filename (mismatch_msg key filename)"
    using cites_mid [of filename
        "''Structure mismatch at key '' @ quote key @ '' between languages (file ''" "'')''"]
    by (simp add: mismatch_msg_def)
  moreover have "merge_nested base (PDict (pre @ (key, PStr s) # post)) lang filename
          = Inl (StructureMismatch key filename)"
    if "merge_items base pre lang filename = Inr mid" "key \<notin> fst ` set pre"
      "map_of base key = Some cur" "\<not> is_mapping cur"
  proof -
    have "map_of mid key = Some cur"
      using merge_items_other_key [OF that(1,2)] that(3) by simp
    then show ?thesis
      using that(1,4)
      by (simp add: merge_nested_def merge_items_append merge_items_Cons merge_value_string
          cur_or_def StructureMismatch_def)
  qed
  moreover have "merge_nested base (PDict [(key, PStr s)]) lang filename
          = Inr (AList.update key (PDict (AList.update lang (PStr s) (items_of cur))) base)"
    if "map_of base key = Some cur" "is_mapping cur"
    using that by (simp add: merge_nested_def merge_items_Cons merge_value_string cur_or_def)
  ultimately show ?thesis
    by blast
qed

theorem string_over_existing_value_witness:
  "merge_items [(''title'', PList [PDict [(''en'', PStr ''a'')]])] [] ''ru'' ''ru.json''
     = Inr [(''title'', PList [PDict [(''en'', PStr ''a'')]])]
   \<and> ''title'' \<notin> fst ` set ([] :: pydict)
   \<and> map_of [(''title'', PList [PDict [(''en'', PStr ''a'')]])] ''title''
       = Some (PList [PDict [(''en'', PStr ''a'')]])
   \<and> \<not> is_mapping (PList [PDict [(''en'', PStr ''a'')]])
   \<and> merge_nested [(''title'', PList [PDict [(''en'', PStr ''a'')]])]
        (PDict [(''title'', PStr ''T'')]) ''ru'' ''ru.json''
       = Inl (StructureMismatch ''title'' ''ru.json'')
   \<and> cites ''title'' (mismatch_msg ''title'' ''ru.json'')
   \<and> map_of [(''title'', PDict [(''x'', PDict [(''en'', PStr ''X'')])])] ''title''
       = Some (PDict [(''x'', PDict [(''en'', PStr ''X'')])])
   \<and> is_mapping (PDict [(''x'', PDict [(''en'', PStr ''X'')])])
   \<and> merge_nested [(''title'', PDict [(''x'', PDict [(''en'', PStr ''X'')])])]
        (PDict [(''title'', PStr ''T'')]) ''ru'' ''ru.json''
       = Inr [(''title'', PDict [(''x'', PDict [(''en'', PStr ''X'')]), (''ru'', PStr ''T'')])]"
  using
    string_over_existing_value [where base = "[(''title'', PList [PDict [(''en'', PStr ''a'')]])]"
      and pre = "[]" and lang = "''ru''" and filename = "''ru.json''" and key = "''title''"
      and mid = "[(''title'', PList [PDict [(''en'', PStr ''a'')]])]"
      and cur = "PList [PDict [(''en'', PStr ''a'')]]" and s = "''T''" and post = "[]"]
    string_over_existing_value [where base = "[(''title'', PDict [(''x'', PDict [(''en'', PStr ''X'')])])]"
      and lang = "''ru''" and filename = "''ru.json''" and key = "''title''"
      and cur = "PDict [(''x'', PDict [(''en'', PStr ''X'')])]" and s = "''T''"]
  by simp

section \<open>Where the strings of the accumulator are\<close>

text \<open>
  The shape every accumulator of a run has: a string is only ever the value of an entry
  whose key is one of the language tags \<open>langs\<close>, every slot of a sequence is a map, and
  nothing but maps, sequences and strings occurs.
\<close>

fun tagged :: "string list \<Rightarrow> pyval \<Rightarrow> bool"
  and tagged_items :: "string list \<Rightarrow> (string \<times> pyval) list \<Rightarrow> bool"
  and tagged_slots :: "string list \<Rightarrow> pyval list \<Rightarrow> bool" where
  "tagged langs (PDict d) = tagged_items langs d"
| "tagged langs (PList l) = tagged_slots langs l"
| "tagged langs (PStr s) = True"
| "tagged langs v = False"
| "tagged_items langs [] = True"
| "tagged_items langs ((k, v) # rest) =
     ((if is_str v then k \<in> set langs else True) \<and> tagged langs v \<and> tagged_items langs rest)"
| "tagged_slots langs [] = True"
| "tagged_slots langs (v # rest) = (is_mapping v \<and> tagged langs v \<and> tagged_slots langs rest)"

text \<open>No value at a key is a string (or any other leaf).\<close>

definition containers_only :: "pydict \<Rightarrow> bool" where
  "containers_only acc = list_all (\<lambda>(k, v). is_mapping v \<or> is_list v) acc"



lemma valid_tree_simps [simp]:
  "valid_tree (PStr s)"
  "valid_tree (PDict [])"
  "valid_tree (PList [])"
  "valid_tree (PDict ((k, v) # d)) = (valid_tree v \<and> valid_tree (PDict d))"
  "valid_tree (PList (v # l)) = (valid_tree v \<and> valid_tree (PList l))"
  "\<not> valid_tree (PInt n)" "\<not> valid_tree (PFloat m e)" "\<not> valid_tree (PBool b)" "\<not> valid_tree PNone"
  by (auto simp: valid_tree_def tree_node_def)

lemma valid_tree_cases:
  "valid_tree v \<Longrightarrow> \<not> is_mapping v \<Longrightarrow> \<not> is_list v \<Longrightarrow> is_str v"
  by (cases v) auto

lemma valid_items_of: "valid_tree v \<Longrightarrow> is_mapping v \<Longrightarrow> valid_tree (PDict (items_of v))"
  by (cases v) auto

lemma valid_elems_of: "valid_tree v \<Longrightarrow> is_list v \<Longrightarrow> valid_tree (PList (elems_of v))"
  by (cases v) auto

lemma set_update_subset: "set (AList.update k v d) \<subseteq> insert (k, v) (set d)"
  by (induction d) auto

lemma tagged_items_iff:
  "tagged_items langs d = (\<forall>(k, v) \<in> set d. (is_str v \<longrightarrow> k \<in> set langs) \<and> tagged langs v)"
  by (induction d) auto

lemma tagged_slots_iff:
  "tagged_slots langs l = (\<forall>v \<in> set l. is_mapping v \<and> tagged langs v)"
  by (induction l) auto

lemma tagged_items_update:
  "tagged_items langs d \<Longrightarrow> is_str v \<longrightarrow> k \<in> set langs \<Longrightarrow> tagged langs v \<Longrightarrow>
     tagged_items langs (AList.update k v d)"
  unfolding tagged_items_iff using set_update_subset [of k v d] by auto

lemma tagged_items_lookup:
  "tagged_items langs d \<Longrightarrow> map_of d k = Some v \<Longrightarrow> tagged langs v"
  unfolding tagged_items_iff by (auto dest: map_of_SomeD)

lemma tagged_cur_items:
  "tagged_items langs d \<Longrightarrow> is_mapping (cur_or (map_of d k) (PDict [])) \<Longrightarrow>
     tagged_items langs (items_of (cur_or (map_of d k) (PDict [])))"
  by (cases "map_of d k"; cases "cur_or (map_of d k) (PDict [])")
     (auto simp: cur_or_def dest: tagged_items_lookup)

lemma tagged_cur_elems:
  "tagged_items langs d \<Longrightarrow> is_list (cur_or (map_of d k) (PList [])) \<Longrightarrow>
     tagged_slots langs (elems_of (cur_or (map_of d k) (PList [])))"
  by (cases "map_of d k"; cases "cur_or (map_of d k) (PList [])")
     (auto simp: cur_or_def dest: tagged_items_lookup)

lemma tagged_slots_grow:
  "tagged_slots langs l \<Longrightarrow> tagged_slots langs (l @ replicate n (PDict []))"
  unfolding tagged_slots_iff by auto

lemma tagged_slots_update:
  "tagged_slots langs l \<Longrightarrow> tagged_items langs s \<Longrightarrow> tagged_slots langs (l[i := PDict s])"
  unfolding tagged_slots_iff using set_update_subset_insert [of l i "PDict s"] by auto

lemma tagged_slot_of:
  "tagged_slots langs l \<Longrightarrow> i < length l \<Longrightarrow> tagged_items langs (slot_of (l ! i))"
proof -
  assume "tagged_slots langs l" "i < length l"
  then have "tagged langs (l ! i)"
    unfolding tagged_slots_iff by (auto dest: nth_mem)
  then show ?thesis
    by (cases "l ! i") (auto simp: slot_of_def)
qed

lemma merge_keeps_tagged:
  assumes lang: "lang \<in> set langs"
  shows "tagged_items langs base \<Longrightarrow> valid_tree (PDict items) \<Longrightarrow>
           merge_items base items lang fn = Inr base' \<Longrightarrow> tagged_items langs base'"
    and "tagged_slots langs dst \<Longrightarrow> valid_tree (PList l) \<Longrightarrow>
           merge_elems dst i l key lang fn = Inr dst' \<Longrightarrow> tagged_slots langs dst'"
proof (induction base items and dst i l key arbitrary: base' and dst' rule: merge_induct)
  case (Nil base)
  then show ?case by simp
next
  case (Cons base key v rest)
  from Cons.prems(3) obtain v' where
    v': "merge_value (map_of base key) v key lang fn = Inr v'"
    and rest: "merge_items (AList.update key v' base) rest lang fn = Inr base'"
    by (auto simp: merge_items_Cons split: sum.splits)
  have v: "valid_tree v" and vr: "valid_tree (PDict rest)"
    using Cons.prems(2) by simp_all
  have "tagged langs v' \<and> \<not> is_str v'"
  proof (cases "is_mapping v")
    case True
    with v' obtain sub where
      "is_mapping (cur_or (map_of base key) (PDict []))"
      "merge_items (items_of (cur_or (map_of base key) (PDict []))) (items_of v) lang fn = Inr sub"
      "v' = PDict sub"
      by (auto simp: merge_value_def map_sum_def split: if_splits sum.splits)
    then show ?thesis
      using Cons.IH(1) [OF True _ _ \<open>merge_items _ _ _ _ = Inr sub\<close>]
        tagged_cur_items [OF Cons.prems(1)] valid_items_of [OF v True]
      by simp
  next
    case False
    show ?thesis
    proof (cases "is_list v")
      case True
      with v' \<open>\<not> is_mapping v\<close> obtain dst where
        c: "is_list (cur_or (map_of base key) (PList []))"
        and m: "merge_elems
           (elems_of (cur_or (map_of base key) (PList []))
              @ replicate (length (elems_of v) - length (elems_of (cur_or (map_of base key) (PList []))))
                  (PDict []))
           0 (elems_of v) key lang fn = Inr dst"
        and "v' = PList dst"
        by (auto simp: merge_value_def map_sum_def split: if_splits sum.splits)
      then show ?thesis
        using Cons.IH(2) [OF True _ _ m] tagged_slots_grow [OF tagged_cur_elems [OF Cons.prems(1) c]]
          valid_elems_of [OF v True]
        by simp
    next
      case nl: False
      have "is_str v" using valid_tree_cases [OF v False nl] .
      with v' False nl show ?thesis
        using tagged_cur_items [OF Cons.prems(1), of key] lang
        by (cases v) (auto simp: merge_value_def split: if_splits intro!: tagged_items_update)
    qed
  qed
  then have "tagged_items langs (AList.update key v' base)"
    using Cons.prems(1) by (auto intro: tagged_items_update)
  from Cons.IH(3) [OF this vr rest] show ?case .
next
  case (ENil dst i key)
  then show ?case by simp
next
  case (ECons dst i item rest key)
  from ECons.prems(3) obtain s where
    i: "i < length dst"
    and s: "merge_slot (dst ! i) item key i lang fn = Inr s"
    and rest: "merge_elems (dst[i := s]) (Suc i) rest key lang fn = Inr dst'"
    by (auto simp: merge_elems_Cons split: sum.splits if_splits)
  have v: "valid_tree item" and vr: "valid_tree (PList rest)"
    using ECons.prems(2) by simp_all
  have slot: "tagged_items langs (slot_of (dst ! i))"
    using tagged_slot_of [OF ECons.prems(1) i] .
  obtain m where m: "s = PDict m" "tagged_items langs m"
  proof (cases "is_mapping item")
    case True
    with s obtain m where "merge_items (slot_of (dst ! i)) (items_of item) lang fn = Inr m" "s = PDict m"
      by (auto simp: merge_slot_def map_sum_def split: sum.splits)
    then show ?thesis
      using ECons.IH(1) [OF True slot valid_items_of [OF v True]] that by blast
  next
    case False
    with s have "is_str item" "s = PDict (AList.update lang item (slot_of (dst ! i)))"
      by (auto simp: merge_slot_def split: if_splits)
    then have "tagged_items langs (AList.update lang item (slot_of (dst ! i)))"
      using slot lang by (cases item) (auto intro!: tagged_items_update)
    with \<open>s = _\<close> show ?thesis
      using that by blast
  qed
  have "tagged_slots langs (dst[i := s])"
    unfolding m(1) by (rule tagged_slots_update [OF ECons.prems(1) m(2)])
  from ECons.IH(2) [OF this vr rest] show ?case .
qed

lemma merge_value_container:
  "merge_value old v key lang fn = Inr v' \<Longrightarrow> is_mapping v' \<or> is_list v'"
  by (auto simp: merge_value_def map_sum_def split: if_splits sum.splits)

lemma merge_items_containers:
  "merge_items base items lang fn = Inr base' \<Longrightarrow> containers_only base \<Longrightarrow>
     containers_only base'"
proof (induction items arbitrary: base)
  case Nil
  then show ?case by simp
next
  case (Cons p rest)
  obtain k v where p: "p = (k, v)" by (cases p)
  from Cons.prems(1) obtain v' where
    v': "merge_value (map_of base k) v k lang fn = Inr v'"
    and rest: "merge_items (AList.update k v' base) rest lang fn = Inr base'"
    by (auto simp: p merge_items_Cons split: sum.splits)
  have "containers_only (AList.update k v' base)"
    using Cons.prems(2) merge_value_container [OF v'] set_update_subset [of k v' base]
    unfolding containers_only_def list_all_iff by auto
  from Cons.IH [OF rest this] show ?case .
qed

lemma merge_loop_tagged:
  "merge_loop acc files = Inr acc' \<Longrightarrow> fst ` set files \<subseteq> set langs \<Longrightarrow>
     tagged_items langs acc \<Longrightarrow> containers_only acc \<Longrightarrow>
     tagged_items langs acc' \<and> containers_only acc'"
proof (induction acc files rule: merge_loop.induct)
  case (1 merged)
  then show ?case by simp
next
  case (2 merged lang filename payload files)
  from "2.prems"(1) obtain mid where
    v: "validate_tree payload filename = Inr ()"
    and m: "merge_nested merged payload lang filename = Inr mid"
    and r: "merge_loop mid files = Inr acc'"
    by (auto split: sum.splits)
  from m obtain items where p: "payload = PDict items"
    and mi: "merge_items merged items lang filename = Inr mid"
    by (cases payload) (auto simp: merge_nested_def)
  have "valid_tree (PDict items)"
    using v unfolding p by (simp only: validate_valid)
  moreover have "lang \<in> set langs"
    using "2.prems"(2) by simp
  ultimately have "tagged_items langs mid"
    using merge_keeps_tagged(1) [OF _ "2.prems"(3) _ mi] by simp
  moreover have "containers_only mid"
    using merge_items_containers [OF mi "2.prems"(4)] .
  ultimately show ?case
    using "2.IH" [OF v m r] "2.prems"(2) by simp
qed


section \<open>Sequences\<close>

text \<open>The loop over an array writes the slots of its indices, and only those.\<close>

lemma merge_elems_nth:
  "merge_elems dst i l key lang fn = Inr dst' \<Longrightarrow>
     (\<forall>j. j < i \<or> i + length l \<le> j \<longrightarrow> dst' ! j = dst ! j) \<and>
     (\<forall>j. i \<le> j \<and> j < i + length l \<longrightarrow>
          merge_slot (dst ! j) (l ! (j - i)) key j lang fn = Inr (dst' ! j))"
proof (induction l arbitrary: dst i)
  case Nil
  then show ?case by auto
next
  case (Cons item rest)
  from Cons.prems obtain s where
    i: "i < length dst"
    and s: "merge_slot (dst ! i) item key i lang fn = Inr s"
    and rest: "merge_elems (dst[i := s]) (Suc i) rest key lang fn = Inr dst'"
    by (auto simp: merge_elems_Cons split: sum.splits if_splits)
  note IH = Cons.IH [OF rest]
  have out: "dst' ! j = dst ! j" if "j < i \<or> i + length (item # rest) \<le> j" for j
    using IH that by auto
  have at_i: "dst' ! i = s"
    using IH i by auto
  have inside: "merge_slot (dst ! j) ((item # rest) ! (j - i)) key j lang fn = Inr (dst' ! j)"
    if "i \<le> j" "j < i + length (item # rest)" for j
  proof (cases "j = i")
    case True
    then show ?thesis using s at_i by simp
  next
    case False
    with that have "Suc i \<le> j" "j < Suc i + length rest" by auto
    with IH have "merge_slot (dst[i := s] ! j) (rest ! (j - Suc i)) key j lang fn = Inr (dst' ! j)"
      by blast
    moreover have "(item # rest) ! (j - i) = rest ! (j - Suc i)"
      using \<open>Suc i \<le> j\<close> by (simp add: nth_Cons' Suc_le_eq)
    ultimately show ?thesis
      using False by simp
  qed
  show ?case
    using out inside by blast
qed

lemma valid_tree_list: "valid_tree (PList l) = list_all valid_tree l"
  by (induction l) simp_all

lemma two_files:
  assumes "merge_run [(la, fa, ta), (lb, fb, tb)] = Inr acc"
  obtains mid where "validate_tree ta fa = Inr ()" "validate_tree tb fb = Inr ()"
    "merge_nested [] ta la fa = Inr mid" "merge_nested mid tb lb fb = Inr acc"
  using assms by (auto simp: merge_run_def split: sum.splits)

section \<open>Merging a second tree of the same shape\<close>

text \<open>A Python \<open>dict\<close> has every key once, at every level of the tree.\<close>

fun distinct_keys :: "pyval \<Rightarrow> bool"
  and distinct_keys_items :: "(string \<times> pyval) list \<Rightarrow> bool"
  and distinct_keys_elems :: "pyval list \<Rightarrow> bool" where
  "distinct_keys (PDict d) = (distinct (map fst d) \<and> distinct_keys_items d)"
| "distinct_keys (PList l) = distinct_keys_elems l"
| "distinct_keys v = True"
| "distinct_keys_items [] = True"
| "distinct_keys_items ((k, v) # rest) = (distinct_keys v \<and> distinct_keys_items rest)"
| "distinct_keys_elems [] = True"
| "distinct_keys_elems (v # rest) = (distinct_keys v \<and> distinct_keys_elems rest)"

text \<open>
  Two trees of the same shape: the same keys in the same order, sequences of the same
  length, strings at the same positions.
\<close>

fun same_shape :: "pyval \<Rightarrow> pyval \<Rightarrow> bool"
  and same_shape_items :: "(string \<times> pyval) list \<Rightarrow> (string \<times> pyval) list \<Rightarrow> bool"
  and same_shape_elems :: "pyval list \<Rightarrow> pyval list \<Rightarrow> bool" where
  "same_shape (PStr a) (PStr b) = True"
| "same_shape (PDict d) (PDict e) = same_shape_items d e"
| "same_shape (PList l) (PList m) = same_shape_elems l m"
| "same_shape v w = False"
| "same_shape_items [] [] = True"
| "same_shape_items ((k, v) # d) ((k', w) # e) = (k = k' \<and> same_shape v w \<and> same_shape_items d e)"
| "same_shape_items d e = False"
| "same_shape_elems [] [] = True"
| "same_shape_elems (v # l) (w # m) = (same_shape v w \<and> same_shape_elems l m)"
| "same_shape_elems l m = False"

lemma same_shape_items_keys: "same_shape_items d e \<Longrightarrow> map fst d = map fst e"
  by (induction d arbitrary: e) (case_tac e; auto)+

lemma same_shape_elems_length: "same_shape_elems l m \<Longrightarrow> length l = length m"
  by (induction l arbitrary: m) (case_tac m; auto)+

lemma same_shape_kinds:
  "same_shape v w \<Longrightarrow>
     (is_mapping v \<and> is_mapping w \<and> same_shape_items (items_of v) (items_of w))
     \<or> (is_list v \<and> is_list w \<and> same_shape_elems (elems_of v) (elems_of w))
     \<or> (is_str v \<and> is_str w)"
  by (cases v; cases w) auto

lemma distinct_keys_items_of:
  "distinct_keys v \<Longrightarrow> is_mapping v \<Longrightarrow>
     distinct (map fst (items_of v)) \<and> distinct_keys_items (items_of v)"
  by (cases v) auto

lemma distinct_keys_elems_of:
  "distinct_keys v \<Longrightarrow> is_list v \<Longrightarrow> distinct_keys_elems (elems_of v)"
  by (cases v) auto

text \<open>A pass of either loop leaves the other keys and the earlier slots alone.\<close>

lemma update_commute:
  "k \<noteq> k' \<Longrightarrow> k \<in> fst ` set al \<Longrightarrow>
     AList.update k' v' (AList.update k w al) = AList.update k w (AList.update k' v' al)"
  by (induction al) auto

lemma merge_items_update_other:
  "k \<notin> fst ` set items \<Longrightarrow> k \<in> fst ` set base \<Longrightarrow>
     merge_items (AList.update k w base) items lang fn
       = map_sum id (AList.update k w) (merge_items base items lang fn)"
proof (induction items arbitrary: base)
  case Nil
  then show ?case by simp
next
  case (Cons p rest)
  obtain k' v where p: "p = (k', v)" by (cases p)
  have ne: "k \<noteq> k'" and nr: "k \<notin> fst ` set rest"
    using Cons.prems(1) by (auto simp: p)
  have look: "map_of (AList.update k w base) k' = map_of base k'"
    using ne by (simp add: AList.update_conv')
  show ?case
  proof (cases "merge_value (map_of base k') v k' lang fn")
    case (Inl e)
    then show ?thesis by (simp add: p merge_items_Cons look)
  next
    case (Inr v')
    have "k \<in> fst ` set (AList.update k' v' base)"
      using Cons.prems(2) by (simp add: AList.dom_update)
    from Cons.IH [OF nr this] show ?thesis
      by (simp add: p merge_items_Cons look Inr update_commute [OF ne Cons.prems(2)])
  qed
qed

lemma merge_elems_update_before:
  "j < i \<Longrightarrow>
     merge_elems (dst[j := w]) i l key lang fn
       = map_sum id (\<lambda>d. d[j := w]) (merge_elems dst i l key lang fn)"
proof (induction l arbitrary: dst i)
  case Nil
  then show ?case by simp
next
  case (Cons item rest)
  have ne: "j \<noteq> i" using Cons.prems by simp
  show ?case
  proof (cases "i < length dst")
    case False
    then show ?thesis by (simp add: merge_elems_Cons)
  next
    case True
    show ?thesis
    proof (cases "merge_slot (dst ! i) item key i lang fn")
      case (Inl e)
      then show ?thesis using True ne by (simp add: merge_elems_Cons)
    next
      case (Inr s)
      have "j < Suc i" using Cons.prems by simp
      from Cons.IH [OF this, of "dst[i := s]"] show ?thesis
        using True ne by (simp add: merge_elems_Cons Inr list_update_swap [of j i])
    qed
  qed
qed

lemma kinds_exclusive:
  "is_list v \<Longrightarrow> \<not> is_mapping v" "is_str v \<Longrightarrow> \<not> is_mapping v" "is_str v \<Longrightarrow> \<not> is_list v"
  by (cases v; simp)+

lemma merge_value_mapping:
  "is_mapping v \<Longrightarrow>
   merge_value old v key lang fn =
     (if \<not> is_mapping (cur_or old (PDict [])) then
        Inl (InvalidTranslationFile (mismatch_msg key fn))
      else map_sum id PDict
             (merge_items (items_of (cur_or old (PDict []))) (items_of v) lang fn))"
  by (simp add: merge_value_def)

lemma merge_value_sequence:
  "is_list v \<Longrightarrow>
   merge_value old v key lang fn =
     (if \<not> is_list (cur_or old (PList [])) then
        Inl (InvalidTranslationFile (mismatch_msg key fn))
      else map_sum id PList
             (merge_elems
                (elems_of (cur_or old (PList []))
                   @ replicate (length (elems_of v) - length (elems_of (cur_or old (PList []))))
                       (PDict []))
                0 (elems_of v) key lang fn))"
  by (simp add: merge_value_def kinds_exclusive)

lemma merge_value_leaf:
  "is_str v \<Longrightarrow>
   merge_value old v key lang fn =
     (if \<not> is_mapping (cur_or old (PDict [])) then
        Inl (InvalidTranslationFile (mismatch_msg key fn))
      else Inr (PDict (AList.update lang v (items_of (cur_or old (PDict []))))))"
  by (simp add: merge_value_def kinds_exclusive)

lemma cur_or_Some [simp]: "cur_or (Some v) d = v"
  by (simp add: cur_or_def)

text \<open>
  Merging a tree of the same shape with the same language into the result of a merge gives
  what merging it into the original accumulator gives: nothing of the earlier tree is left.
\<close>

lemma overwrite_value:
  assumes sv: "same_shape v1 v2" and dv: "distinct_keys v1"
    and m1: "merge_value old v1 key lang f1 = Inr v1'"
    and IHm: "\<And>sub d2 b1. is_mapping v1 \<Longrightarrow> same_shape_items (items_of v1) d2 \<Longrightarrow>
        merge_items sub (items_of v1) lang f1 = Inr b1 \<Longrightarrow>
        \<exists>b2. merge_items sub d2 lang f2 = Inr b2 \<and> merge_items b1 d2 lang f2 = Inr b2"
    and IHl: "\<And>dst l2 e1. is_list v1 \<Longrightarrow> same_shape_elems (elems_of v1) l2 \<Longrightarrow>
        merge_elems dst 0 (elems_of v1) key lang f1 = Inr e1 \<Longrightarrow>
        \<exists>e2. merge_elems dst 0 l2 key lang f2 = Inr e2 \<and> merge_elems e1 0 l2 key lang f2 = Inr e2"
  shows "\<exists>w. merge_value old v2 key lang f2 = Inr w \<and> merge_value (Some v1') v2 key lang f2 = Inr w"
  using same_shape_kinds [OF sv]
proof (elim disjE conjE)
  assume k: "is_mapping v1" "is_mapping v2" and s: "same_shape_items (items_of v1) (items_of v2)"
  from m1 k(1) obtain s1 where
    c: "is_mapping (cur_or old (PDict []))"
    and sub: "merge_items (items_of (cur_or old (PDict []))) (items_of v1) lang f1 = Inr s1"
    and v1': "v1' = PDict s1"
    by (auto simp: merge_value_mapping map_sum_def split: if_splits sum.splits)
  from IHm [OF k(1) s sub] obtain b2 where
    "merge_items (items_of (cur_or old (PDict []))) (items_of v2) lang f2 = Inr b2"
    "merge_items s1 (items_of v2) lang f2 = Inr b2"
    by blast
  then show ?thesis
    using k(2) c by (simp add: merge_value_mapping v1')
next
  assume k: "is_list v1" "is_list v2" and s: "same_shape_elems (elems_of v1) (elems_of v2)"
  let ?cur = "elems_of (cur_or old (PList []))"
  from m1 k(1) obtain e1 where
    c: "is_list (cur_or old (PList []))"
    and sub: "merge_elems (?cur @ replicate (length (elems_of v1) - length ?cur) (PDict []))
                0 (elems_of v1) key lang f1 = Inr e1"
    and v1': "v1' = PList e1"
    by (auto simp: merge_value_sequence map_sum_def split: if_splits sum.splits)
  have len: "length (elems_of v2) = length (elems_of v1)"
    using same_shape_elems_length [OF s] by simp
  have "length (elems_of v1) \<le> length e1"
    using merge_elems_length [OF sub] by simp
  then have grow: "length (elems_of v1) - length e1 = 0"
    by simp
  from IHl [OF k(1) s sub] obtain e2 where
    "merge_elems (?cur @ replicate (length (elems_of v1) - length ?cur) (PDict []))
       0 (elems_of v2) key lang f2 = Inr e2"
    "merge_elems e1 0 (elems_of v2) key lang f2 = Inr e2"
    by blast
  then show ?thesis
    using k(2) c by (simp add: merge_value_sequence v1' len grow)
next
  assume k: "is_str v1" "is_str v2"
  from m1 k(1) have
    c: "is_mapping (cur_or old (PDict []))"
    and v1': "v1' = PDict (AList.update lang v1 (items_of (cur_or old (PDict []))))"
    by (auto simp: merge_value_leaf split: if_splits)
  show ?thesis
    using k(2) c by (simp add: merge_value_leaf v1')
qed

lemma overwrite_slot:
  assumes sv: "same_shape v1 v2"
    and m1: "merge_slot cur v1 key i lang f1 = Inr s1"
    and IHm: "\<And>slot d2 b1. is_mapping v1 \<Longrightarrow> same_shape_items (items_of v1) d2 \<Longrightarrow>
        merge_items slot (items_of v1) lang f1 = Inr b1 \<Longrightarrow>
        \<exists>b2. merge_items slot d2 lang f2 = Inr b2 \<and> merge_items b1 d2 lang f2 = Inr b2"
  shows "\<exists>w. merge_slot cur v2 key i lang f2 = Inr w \<and> merge_slot s1 v2 key i lang f2 = Inr w"
  using same_shape_kinds [OF sv]
proof (elim disjE conjE)
  assume k: "is_mapping v1" "is_mapping v2" and s: "same_shape_items (items_of v1) (items_of v2)"
  from m1 k(1) obtain m where
    sub: "merge_items (slot_of cur) (items_of v1) lang f1 = Inr m" and s1: "s1 = PDict m"
    by (auto simp: merge_slot_def map_sum_def split: sum.splits)
  from IHm [OF k(1) s sub] obtain b2 where
    "merge_items (slot_of cur) (items_of v2) lang f2 = Inr b2"
    "merge_items m (items_of v2) lang f2 = Inr b2"
    by blast
  then show ?thesis
    using k(2) by (simp add: merge_slot_def s1 slot_of_def)
next
  assume k: "is_list v1" "is_list v2"
  with m1 show ?thesis
    by (cases v1) (simp_all add: merge_slot_def)
next
  assume k: "is_str v1" "is_str v2"
  with m1 have "s1 = PDict (AList.update lang v1 (slot_of cur))"
    by (simp add: merge_slot_def kinds_exclusive)
  then show ?thesis
    using k(2) by (simp add: merge_slot_def kinds_exclusive slot_of_def)
qed

lemma overwrite:
  shows "same_shape_items d1 d2 \<Longrightarrow> distinct (map fst d1) \<Longrightarrow> distinct_keys_items d1 \<Longrightarrow>
           merge_items base d1 lang f1 = Inr b1 \<Longrightarrow>
           \<exists>b2. merge_items base d2 lang f2 = Inr b2 \<and> merge_items b1 d2 lang f2 = Inr b2"
    and "same_shape_elems l1 l2 \<Longrightarrow> distinct_keys_elems l1 \<Longrightarrow>
           merge_elems dst i l1 key lang f1 = Inr e1 \<Longrightarrow>
           \<exists>e2. merge_elems dst i l2 key lang f2 = Inr e2 \<and> merge_elems e1 i l2 key lang f2 = Inr e2"
proof (induction base d1 and dst i l1 key arbitrary: d2 b1 and l2 e1 rule: merge_induct)
  case (Nil base)
  then show ?case by (cases d2) auto
next
  case (Cons base key v1 r1)
  from Cons.prems(1) obtain v2 r2 where
    d2: "d2 = (key, v2) # r2" and sv: "same_shape v1 v2" and sr: "same_shape_items r1 r2"
    by (cases d2) auto
  have kn: "key \<notin> fst ` set r1" and dr: "distinct (map fst r1)"
    using Cons.prems(2) by auto
  have dv: "distinct_keys v1" and dkr: "distinct_keys_items r1"
    using Cons.prems(3) by auto
  from Cons.prems(4) obtain v1' where
    m1: "merge_value (map_of base key) v1 key lang f1 = Inr v1'"
    and rest1: "merge_items (AList.update key v1' base) r1 lang f1 = Inr b1"
    by (auto simp: merge_items_Cons split: sum.splits)
  have "\<exists>w. merge_value (map_of base key) v2 key lang f2 = Inr w
           \<and> merge_value (Some v1') v2 key lang f2 = Inr w"
  proof (rule overwrite_value [OF sv dv m1])
    show "\<exists>b2. merge_items sub d2 lang f2 = Inr b2 \<and> merge_items b1 d2 lang f2 = Inr b2"
      if "is_mapping v1" "same_shape_items (items_of v1) d2"
        "merge_items sub (items_of v1) lang f1 = Inr b1" for sub d2 b1
      using Cons.IH(1) [OF that(1,2) _ _ that(3)] distinct_keys_items_of [OF dv that(1)]
      by blast
    show "\<exists>e2. merge_elems dst 0 l2 key lang f2 = Inr e2 \<and> merge_elems e1 0 l2 key lang f2 = Inr e2"
      if "is_list v1" "same_shape_elems (elems_of v1) l2"
        "merge_elems dst 0 (elems_of v1) key lang f1 = Inr e1" for dst l2 e1
      using Cons.IH(2) [OF that(1,2) _ that(3)] distinct_keys_elems_of [OF dv that(1)]
      by blast
  qed
  then obtain w where
    w: "merge_value (map_of base key) v2 key lang f2 = Inr w"
       "merge_value (Some v1') v2 key lang f2 = Inr w"
    by blast
  have look: "map_of b1 key = Some v1'"
    using merge_items_other_key [OF rest1 kn] by (simp add: AList.update_conv')
  have "key \<in> fst ` set (AList.update key v1' base)"
    by (simp add: AList.dom_update)
  from merge_items_update_other [OF kn this, of w lang f1]
  have "merge_items (AList.update key w base) r1 lang f1 = Inr (AList.update key w b1)"
    by (simp add: rest1)
  from Cons.IH(3) [OF sr dr dkr this] obtain b2 where
    "merge_items (AList.update key w base) r2 lang f2 = Inr b2"
    "merge_items (AList.update key w b1) r2 lang f2 = Inr b2"
    by blast
  then show ?case
    by (simp add: d2 merge_items_Cons w look)
next
  case (ENil dst i key)
  then show ?case by (cases l2) auto
next
  case (ECons dst i v1 r1 key)
  from ECons.prems(1) obtain v2 r2 where
    l2: "l2 = v2 # r2" and sv: "same_shape v1 v2" and sr: "same_shape_elems r1 r2"
    by (cases l2) auto
  have dv: "distinct_keys v1" and dkr: "distinct_keys_elems r1"
    using ECons.prems(2) by auto
  from ECons.prems(3) obtain s1 where
    i: "i < length dst"
    and m1: "merge_slot (dst ! i) v1 key i lang f1 = Inr s1"
    and rest1: "merge_elems (dst[i := s1]) (Suc i) r1 key lang f1 = Inr e1"
    by (auto simp: merge_elems_Cons split: sum.splits if_splits)
  have "\<exists>w. merge_slot (dst ! i) v2 key i lang f2 = Inr w \<and> merge_slot s1 v2 key i lang f2 = Inr w"
  proof (rule overwrite_slot [OF sv m1])
    show "\<exists>b2. merge_items slot d2 lang f2 = Inr b2 \<and> merge_items b1 d2 lang f2 = Inr b2"
      if "is_mapping v1" "same_shape_items (items_of v1) d2"
        "merge_items slot (items_of v1) lang f1 = Inr b1" for slot d2 b1
      using ECons.IH(1) [OF that(1,2) _ _ that(3)] distinct_keys_items_of [OF dv that(1)]
      by blast
  qed
  then obtain w where
    w: "merge_slot (dst ! i) v2 key i lang f2 = Inr w" "merge_slot s1 v2 key i lang f2 = Inr w"
    by blast
  have len: "length e1 = length dst"
    using merge_elems_length [OF rest1] by simp
  have at_i: "e1 ! i = s1"
    using merge_elems_nth [OF rest1] i by simp
  from merge_elems_update_before [of i "Suc i" "dst[i := s1]" w r1 key lang f1]
  have "merge_elems (dst[i := w]) (Suc i) r1 key lang f1 = Inr (e1[i := w])"
    by (simp add: rest1)
  from ECons.IH(2) [OF sr dkr this] obtain e2 where
    "merge_elems (dst[i := w]) (Suc i) r2 key lang f2 = Inr e2"
    "merge_elems (e1[i := w]) (Suc i) r2 key lang f2 = Inr e2"
    by blast
  then show ?case
    using i by (simp add: l2 merge_elems_Cons w len at_i)
qed

section \<open>Order and last writer\<close>


text \<open>What a successful pass stores at a key of the incoming tree.\<close>

lemma merge_items_at:
  "distinct (map fst items) \<Longrightarrow> merge_items base items lang fn = Inr base' \<Longrightarrow>
     (k, v) \<in> set items \<Longrightarrow>
     \<exists>v'. merge_value (map_of base k) v k lang fn = Inr v' \<and> map_of base' k = Some v'"
proof (induction items arbitrary: base)
  case Nil
  then show ?case by simp
next
  case (Cons p rest)
  obtain k0 v0 where p: "p = (k0, v0)" by (cases p)
  have kn: "k0 \<notin> fst ` set rest" and dr: "distinct (map fst rest)"
    using Cons.prems(1) by (auto simp: p)
  from Cons.prems(2) obtain v0' where
    m: "merge_value (map_of base k0) v0 k0 lang fn = Inr v0'"
    and rest: "merge_items (AList.update k0 v0' base) rest lang fn = Inr base'"
    by (auto simp: p merge_items_Cons split: sum.splits)
  show ?case
  proof (cases "(k, v) = (k0, v0)")
    case True
    then show ?thesis
      using m merge_items_other_key [OF rest kn] by (simp add: AList.update_conv')
  next
    case False
    with Cons.prems(3) have mem: "(k, v) \<in> set rest" by (auto simp: p)
    with kn have "k \<noteq> k0" by force
    with Cons.IH [OF dr rest mem] show ?thesis
      by (simp add: AList.update_conv')
  qed
qed


section \<open>Merging one file, once and again\<close>

text \<open>
  The merged form of a single-language tree, as the specification words it: every string
  leaf is replaced by the map from the language tag to that string, and the nesting of
  objects and arrays stays.
\<close>

fun leafify :: "string \<Rightarrow> pyval \<Rightarrow> pyval"
  and leafify_items :: "string \<Rightarrow> (string \<times> pyval) list \<Rightarrow> (string \<times> pyval) list"
  and leafify_elems :: "string \<Rightarrow> pyval list \<Rightarrow> pyval list" where
  "leafify lang (PStr s) = PDict [(lang, PStr s)]"
| "leafify lang (PDict d) = PDict (leafify_items lang d)"
| "leafify lang (PList l) = PList (leafify_elems lang l)"
| "leafify lang v = v"
| "leafify_items lang [] = []"
| "leafify_items lang ((k, v) # rest) = (k, leafify lang v) # leafify_items lang rest"
| "leafify_elems lang [] = []"
| "leafify_elems lang (v # rest) = leafify lang v # leafify_elems lang rest"

text \<open>No element of an array is itself an array.\<close>

fun flat_arrays :: "pyval \<Rightarrow> bool"
  and flat_items :: "(string \<times> pyval) list \<Rightarrow> bool"
  and flat_elems :: "pyval list \<Rightarrow> bool" where
  "flat_arrays (PDict d) = flat_items d"
| "flat_arrays (PList l) = flat_elems l"
| "flat_arrays v = True"
| "flat_items [] = True"
| "flat_items ((k, v) # rest) = (flat_arrays v \<and> flat_items rest)"
| "flat_elems [] = True"
| "flat_elems (v # rest) = ((if is_list v then False else flat_arrays v) \<and> flat_elems rest)"

text \<open>The validated trees the merge accepts.\<close>

definition mergeable :: "pyval \<Rightarrow> bool" where
  "mergeable t = (is_mapping t \<and> valid_tree t \<and> distinct_keys t \<and> flat_arrays t)"

lemma update_fresh: "k \<notin> fst ` set al \<Longrightarrow> AList.update k v al = al @ [(k, v)]"
  by (induction al) auto

lemma flat_items_of: "flat_arrays v \<Longrightarrow> is_mapping v \<Longrightarrow> flat_items (items_of v)"
  by (cases v) auto

lemma flat_elems_of: "flat_arrays v \<Longrightarrow> is_list v \<Longrightarrow> flat_elems (elems_of v)"
  by (cases v) auto

lemma leafify_mapping: "is_mapping v \<Longrightarrow> leafify lang v = PDict (leafify_items lang (items_of v))"
  by (cases v) auto

lemma leafify_sequence: "is_list v \<Longrightarrow> leafify lang v = PList (leafify_elems lang (elems_of v))"
  by (cases v) auto

lemma leafify_string: "is_str v \<Longrightarrow> leafify lang v = PDict [(lang, v)]"
  by (cases v) auto

lemma fresh_merge:
  shows "valid_tree (PDict d) \<Longrightarrow> distinct (map fst d) \<Longrightarrow> distinct_keys_items d \<Longrightarrow>
           flat_items d \<Longrightarrow> fst ` set d \<inter> fst ` set base = {} \<Longrightarrow>
           merge_items base d lang fn = Inr (base @ leafify_items lang d)"
    and "valid_tree (PList l) \<Longrightarrow> distinct_keys_elems l \<Longrightarrow> flat_elems l \<Longrightarrow>
           dst = pre @ replicate (length l) (PDict []) \<Longrightarrow> i = length pre \<Longrightarrow>
           merge_elems dst i l key lang fn = Inr (pre @ leafify_elems lang l)"
proof (induction base d and dst i l key arbitrary: and pre rule: merge_induct)
  case (Nil base)
  then show ?case by simp
next
  case (Cons base key v rest)
  have v: "valid_tree v" and vr: "valid_tree (PDict rest)"
    using Cons.prems(1) by simp_all
  have kn: "key \<notin> fst ` set rest" and dr: "distinct (map fst rest)"
    using Cons.prems(2) by auto
  have dv: "distinct_keys v" and dkr: "distinct_keys_items rest"
    using Cons.prems(3) by auto
  have fv: "flat_arrays v" and fr: "flat_items rest"
    using Cons.prems(4) by auto
  have kb: "key \<notin> fst ` set base" and rb: "fst ` set rest \<inter> fst ` set base = {}"
    using Cons.prems(5) by auto
  have none: "map_of base key = None"
    using kb by (simp add: map_of_eq_None_iff)
  have val: "merge_value None v key lang fn = Inr (leafify lang v)"
  proof (cases "is_mapping v")
    case True
    from Cons.IH(1) [OF True valid_items_of [OF v True] _ _ flat_items_of [OF fv True], of "[]"]
      distinct_keys_items_of [OF dv True]
    have "merge_items [] (items_of v) lang fn = Inr (leafify_items lang (items_of v))"
      by simp
    then show ?thesis
      using True by (simp add: merge_value_mapping cur_or_def leafify_mapping)
  next
    case False
    show ?thesis
    proof (cases "is_list v")
      case True
      from Cons.IH(2) [OF True valid_elems_of [OF v True] distinct_keys_elems_of [OF dv True]
          flat_elems_of [OF fv True], of "replicate (length (elems_of v)) (PDict [])" "[]"]
      have "merge_elems (replicate (length (elems_of v)) (PDict [])) 0 (elems_of v) key lang fn
              = Inr (leafify_elems lang (elems_of v))"
        by simp
      then show ?thesis
        using True by (simp add: merge_value_sequence cur_or_def leafify_sequence)
    next
      case nl: False
      have "is_str v" using valid_tree_cases [OF v False nl] .
      then show ?thesis
        by (simp add: merge_value_leaf cur_or_def leafify_string)
    qed
  qed
  have "fst ` set rest \<inter> fst ` set (base @ [(key, leafify lang v)]) = {}"
    using rb kn by auto
  from Cons.IH(3) [OF vr dr dkr fr this] show ?case
    by (simp add: merge_items_Cons none val update_fresh [OF kb])
next
  case (ENil dst i key)
  then show ?case by simp
next
  case (ECons dst i item rest key)
  have v: "valid_tree item" and vr: "valid_tree (PList rest)"
    using ECons.prems(1) by simp_all
  have dv: "distinct_keys item" and dkr: "distinct_keys_elems rest"
    using ECons.prems(2) by auto
  have nl: "\<not> is_list item" and fv: "flat_arrays item" and fr: "flat_elems rest"
    using ECons.prems(3) by (auto split: if_splits)
  have dst: "dst = pre @ PDict [] # replicate (length rest) (PDict [])" and i: "i = length pre"
    using ECons.prems(4,5) by simp_all
  have slot: "merge_slot (PDict []) item key i lang fn = Inr (leafify lang item)"
  proof (cases "is_mapping item")
    case True
    from ECons.IH(1) [OF True valid_items_of [OF v True] _ _ flat_items_of [OF fv True], of "[]"]
      distinct_keys_items_of [OF dv True]
    have "merge_items [] (items_of item) lang fn = Inr (leafify_items lang (items_of item))"
      by simp
    then show ?thesis
      using True by (simp add: merge_slot_def slot_of_def leafify_mapping)
  next
    case False
    have "is_str item" using valid_tree_cases [OF v False nl] .
    then show ?thesis
      using False by (simp add: merge_slot_def slot_of_def leafify_string)
  qed
  have upd: "dst[i := leafify lang item]
               = (pre @ [leafify lang item]) @ replicate (length rest) (PDict [])"
    by (simp add: dst i)
  from ECons.IH(2) [OF vr dkr fr upd, of] show ?case
    by (simp add: merge_elems_Cons dst i slot [unfolded i])
qed

lemma same_shape_refl:
  shows "valid_tree v \<Longrightarrow> same_shape v v"
    and "valid_tree (PDict d) \<Longrightarrow> same_shape_items d d"
    and "valid_tree (PList l) \<Longrightarrow> same_shape_elems l l"
  by (induction v and d and l rule: distinct_keys_distinct_keys_items_distinct_keys_elems.induct)
     simp_all


text \<open>
  C8, as the specification states it, fails: a tree with an array inside an array is
  validated, and merging it into the empty accumulator raises the exception for the
  unsupported array element, so no merged tree results.
\<close>

theorem nested_array_not_merged:
  "validate_tree (PDict [(''l'', PList [PList [PStr ''a'']])]) ''en.json'' = Inr ()
   \<and> merge_nested [] (PDict [(''l'', PList [PList [PStr ''a'']])]) ''en'' ''en.json''
       = Inl (InvalidTranslationFile
                (''en.json: unsupported array element type list at key ''
                   @ [CHR 0x27] @ ''l[0]'' @ [CHR 0x27]))"
  by (simp add: merge_nested_def merge_items_Cons merge_elems_Cons merge_value_def
        merge_slot_def cur_or_def unsupported_msg_def quote_def digit_def)

text \<open>
  C8, amended. For a validated map with distinct keys and no array directly inside an
  array, merging it with a language into the empty accumulator succeeds and gives its
  merged form, in which every leaf map has the one entry of that language; merging it
  again with the same language into the result succeeds and gives the same tree.
\<close>

theorem remerge_idempotent:
  assumes "mergeable t"
  shows "merge_nested [] t lang fn = Inr (leafify_items lang (items_of t))
         \<and> merge_nested (leafify_items lang (items_of t)) t lang fn
             = Inr (leafify_items lang (items_of t))"
proof -
  from assms obtain d where t: "t = PDict d"
    by (cases t) (auto simp: mergeable_def)
  have v: "valid_tree (PDict d)" and dd: "distinct (map fst d)" "distinct_keys_items d"
    and f: "flat_items d"
    using assms by (simp_all add: mergeable_def t)
  have once: "merge_items [] d lang fn = Inr (leafify_items lang d)"
    using fresh_merge(1) [OF v dd f, of "[]" lang fn] by simp
  from overwrite(1) [OF same_shape_refl(2) [OF v] dd once, of fn]
  have "merge_items (leafify_items lang d) d lang fn = Inr (leafify_items lang d)"
    by (simp add: once)
  with once show ?thesis
    by (simp add: t merge_nested_def)
qed

theorem remerge_idempotent_witness:
  "mergeable en_json
   \<and> merge_nested [] en_json ''en'' ''en.json'' = Inr en_merged
   \<and> merge_nested en_merged en_json ''en'' ''en.json'' = Inr en_merged"
proof -
  have m: "mergeable en_json"
    by (simp add: mergeable_def en_json_def)
  have l: "leafify_items ''en'' (items_of en_json) = en_merged"
    by (simp add: en_json_def en_merged_def)
  from remerge_idempotent [OF m, of "''en''" "''en.json''"] m show ?thesis
    by (simp add: l)
qed

section \<open>Key sets along a path\<close>

text \<open>A path into a tree: keys of maps and indices of sequences.\<close>

datatype step = Key string | Idx nat

text \<open>The value at a path, if the path leads through the tree.\<close>

fun at :: "step list \<Rightarrow> pyval \<Rightarrow> pyval option" where
  "at [] v = Some v"
| "at (Key k # p) v =
     (if is_mapping v then (case map_of (items_of v) k of None \<Rightarrow> None | Some c \<Rightarrow> at p c)
      else None)"
| "at (Idx i # p) v =
     (if is_list v \<and> i < length (elems_of v) then at p (elems_of v ! i) else None)"



definition keys_at :: "step list \<Rightarrow> pyval \<Rightarrow> string set" where
  "keys_at p t =
     (case at p t of
        None \<Rightarrow> {}
      | Some v \<Rightarrow> if is_mapping v then fst ` set (items_of v) else {})"

text \<open>
  The same for what the accumulator may hold at a key, and the relation between a merged
  value \<open>new\<close>, the incoming tree \<open>t\<close> and the earlier value \<open>old\<close> along a path.
\<close>

definition at_opt :: "step list \<Rightarrow> pyval option \<Rightarrow> pyval option" where
  "at_opt p old = (case old of None \<Rightarrow> None | Some c \<Rightarrow> at p c)"



lemma path_cases [case_names Here Key Idx]:
  obtains "p = []" | k q where "p = Key k # q" | i q where "p = Idx i # q"
proof (cases p)
  case Nil
  then show ?thesis using that by simp
next
  case (Cons s q)
  then show ?thesis using that by (cases s) auto
qed

lemma at_empty: "p \<noteq> [] \<Longrightarrow> at p (PDict []) = None"
  by (cases p rule: path_cases) auto

lemma keys_at_empty [simp]: "keys_at p (PDict []) = {}"
  by (cases p rule: path_cases) (auto simp: keys_at_def)







lemma distinct_keys_nth:
  "distinct_keys_elems l \<Longrightarrow> i < length l \<Longrightarrow> distinct_keys (l ! i)"
  by (induction l arbitrary: i) (auto simp: nth_Cons')

lemma distinct_keys_member:
  "distinct_keys_items d \<Longrightarrow> (k, v) \<in> set d \<Longrightarrow> distinct_keys v"
  by (induction d) auto

lemma tagged_mapping_items: "tagged langs g \<Longrightarrow> is_mapping g \<Longrightarrow> tagged_items langs (items_of g)"
  by (cases g) auto

lemma tagged_sequence_elems: "tagged langs g \<Longrightarrow> is_list g \<Longrightarrow> tagged_slots langs (elems_of g)"
  by (cases g) auto

















section \<open>The strings a merge writes\<close>

text \<open>
  After a successful merge every string of the incoming tree stands in the accumulator, at
  its own path, under the language tag.
\<close>

lemma at_string: "is_str v \<Longrightarrow> at q v = Some w \<Longrightarrow> q = [] \<and> w = v"
  by (cases q rule: path_cases) (auto simp: kinds_exclusive)







section \<open>Sequences along a path\<close>

text \<open>
  What one merge does at a path of keys and indices that ends with a key: where the
  file has a value, the merged tree has one too, and it is the result of merging the
  value of the file over what the accumulator had at that path, or over nothing.
\<close>

lemma at_cur_or:
  "q \<noteq> [] \<Longrightarrow> at q (cur_or old (PDict [])) = at_opt q old"
  by (cases old) (simp_all add: cur_or_def at_opt_def at_empty)

lemma acts_slot:
  assumes IH: "\<And>items base base'. distinct_keys (PDict items) \<Longrightarrow> tagged_items langs base \<Longrightarrow>
        merge_items base items lang fn = Inr base' \<Longrightarrow> at (r @ [Key k]) (PDict items) = Some v \<Longrightarrow>
        \<exists>v'. at (r @ [Key k]) (PDict base') = Some v'
              \<and> merge_value (at (r @ [Key k]) (PDict base)) v k lang fn = Inr v'"
    and d: "distinct_keys item"
    and m: "merge_slot g item key i lang fn = Inr new"
    and old: "(old = Some g \<and> is_mapping g \<and> tagged langs g) \<or> (old = None \<and> g = PDict [])"
    and a: "at (r @ [Key k]) item = Some v"
  shows "\<exists>v'. at (r @ [Key k]) new = Some v'
            \<and> merge_value (at_opt (r @ [Key k]) old) v k lang fn = Inr v'"
proof -
  have im: "is_mapping item"
  proof (rule ccontr)
    assume "\<not> is_mapping item"
    with m have "is_str item"
      by (auto simp: merge_slot_def split: if_splits)
    from at_string [OF this a] show False by simp
  qed
  with m obtain sub where
    sub: "merge_items (slot_of g) (items_of item) lang fn = Inr sub" and new: "new = PDict sub"
    by (auto simp: merge_slot_def map_sum_def split: sum.splits)
  have t: "tagged_items langs (slot_of g)"
    using old by (auto simp: slot_of_def tagged_mapping_items)
  have "distinct_keys (PDict (items_of item))" "at (r @ [Key k]) (PDict (items_of item)) = Some v"
    using d a im by simp_all
  from IH [OF this(1) t sub this(2)] obtain v' where
    v': "at (r @ [Key k]) (PDict sub) = Some v'"
      "merge_value (at (r @ [Key k]) (PDict (slot_of g))) v k lang fn = Inr v'"
    by blast
  have "at (r @ [Key k]) (PDict (slot_of g)) = at_opt (r @ [Key k]) old"
    using old by (auto simp: slot_of_def at_opt_def at_empty)
  with v' show ?thesis
    by (simp add: new)
qed

lemma acts_value:
  assumes IHq: "\<And>items base base'. distinct_keys (PDict items) \<Longrightarrow> tagged_items langs base \<Longrightarrow>
        merge_items base items lang fn = Inr base' \<Longrightarrow> at (q @ [Key k]) (PDict items) = Some v \<Longrightarrow>
        \<exists>v'. at (q @ [Key k]) (PDict base') = Some v'
              \<and> merge_value (at (q @ [Key k]) (PDict base)) v k lang fn = Inr v'"
    and IHr: "\<And>i r items base base'. q = Idx i # r \<Longrightarrow>
        distinct_keys (PDict items) \<Longrightarrow> tagged_items langs base \<Longrightarrow>
        merge_items base items lang fn = Inr base' \<Longrightarrow> at (r @ [Key k]) (PDict items) = Some v \<Longrightarrow>
        \<exists>v'. at (r @ [Key k]) (PDict base') = Some v'
              \<and> merge_value (at (r @ [Key k]) (PDict base)) v k lang fn = Inr v'"
    and d: "distinct_keys w"
    and t: "\<And>c. old = Some c \<Longrightarrow> tagged langs c"
    and m: "merge_value old w key lang fn = Inr w'"
    and a: "at (q @ [Key k]) w = Some v"
  shows "\<exists>v'. at (q @ [Key k]) w' = Some v'
            \<and> merge_value (at_opt (q @ [Key k]) old) v k lang fn = Inr v'"
proof (cases "is_mapping w")
  case True
  let ?cur = "cur_or old (PDict [])"
  from m True obtain sub where
    c: "is_mapping ?cur"
    and sub: "merge_items (items_of ?cur) (items_of w) lang fn = Inr sub"
    and w': "w' = PDict sub"
    by (auto simp: merge_value_mapping map_sum_def split: if_splits sum.splits)
  have tc: "tagged_items langs (items_of ?cur)"
    using t c by (cases old) (auto simp: cur_or_def tagged_mapping_items)
  have "distinct_keys (PDict (items_of w))" "at (q @ [Key k]) (PDict (items_of w)) = Some v"
    using d a True by simp_all
  from IHq [OF this(1) tc sub this(2)] obtain v' where
    "at (q @ [Key k]) (PDict sub) = Some v'"
    "merge_value (at (q @ [Key k]) ?cur) v k lang fn = Inr v'"
    using c by auto
  then show ?thesis
    by (simp add: w' at_cur_or)
next
  case nm: False
  from a nm obtain i r where q: "q = Idx i # r" and l: "is_list w"
    and i: "i < length (elems_of w)" and ar: "at (r @ [Key k]) (elems_of w ! i) = Some v"
    by (cases q rule: path_cases) (auto split: if_splits)
  let ?cur = "elems_of (cur_or old (PList []))"
  let ?g = "?cur @ replicate (length (elems_of w) - length ?cur) (PDict [])"
  from m l obtain dst where
    c: "is_list (cur_or old (PList []))"
    and me: "merge_elems ?g 0 (elems_of w) key lang fn = Inr dst"
    and w': "w' = PList dst"
    by (auto simp: merge_value_sequence map_sum_def split: if_splits sum.splits)
  have ts: "tagged_slots langs ?cur"
    using t c by (cases old) (auto simp: cur_or_def tagged_sequence_elems)
  have slot: "merge_slot (?g ! i) (elems_of w ! i) key i lang fn = Inr (dst ! i)"
    using merge_elems_nth [OF me] i by simp
  have di: "distinct_keys (elems_of w ! i)"
    using d l i by (cases w) (auto intro: distinct_keys_nth)
  have il: "i < length dst"
    using i merge_elems_length [OF me] by simp
  define old_slot where "old_slot = (if i < length ?cur then Some (?cur ! i) else None)"
  have os: "(old_slot = Some (?g ! i) \<and> is_mapping (?g ! i) \<and> tagged langs (?g ! i))
            \<or> (old_slot = None \<and> ?g ! i = PDict [])"
  proof (cases "i < length ?cur")
    case True
    then have "?cur ! i \<in> set ?cur" by simp
    with ts have "is_mapping (?cur ! i) \<and> tagged langs (?cur ! i)"
      unfolding tagged_slots_iff by blast
    then show ?thesis
      using True by (simp add: old_slot_def nth_append)
  next
    case False
    then show ?thesis
      using i by (simp add: old_slot_def nth_append)
  qed
  have "at_opt (q @ [Key k]) old = at_opt (r @ [Key k]) old_slot"
    using c by (cases old) (auto simp: q at_opt_def old_slot_def cur_or_def)
  with acts_slot [OF IHr [OF q] di slot os ar] show ?thesis
    using il by (simp add: q w')
qed

lemma merge_acts_at:
  "distinct_keys (PDict items) \<Longrightarrow> tagged_items langs base \<Longrightarrow>
     merge_items base items lang fn = Inr base' \<Longrightarrow> at (q @ [Key k]) (PDict items) = Some v \<Longrightarrow>
     \<exists>v'. at (q @ [Key k]) (PDict base') = Some v'
           \<and> merge_value (at (q @ [Key k]) (PDict base)) v k lang fn = Inr v'"
proof (induction q arbitrary: items base base' rule: length_induct)
  case (1 q)
  note d = "1.prems"(1) and t = "1.prems"(2) and m = "1.prems"(3) and a = "1.prems"(4)
  have dd: "distinct (map fst items)" "distinct_keys_items items"
    using d by simp_all
  show ?case
  proof (cases q rule: path_cases)
    case Here
    with a have look: "map_of items k = Some v"
      by (simp split: option.splits)
    from merge_items_at [OF dd(1) m map_of_SomeD [OF look]] show ?thesis
      by (cases "map_of base k") (auto simp: Here)
  next
    case (Idx i r)
    with a show ?thesis by simp
  next
    case (Key k0 r)
    from a obtain w where look: "map_of items k0 = Some w"
      and ar: "at (r @ [Key k]) w = Some v"
      by (auto simp: Key split: option.splits)
    have mem: "(k0, w) \<in> set items"
      using look by (rule map_of_SomeD)
    from merge_items_at [OF dd(1) m mem] obtain w' where
      mv: "merge_value (map_of base k0) w k0 lang fn = Inr w'"
      and look': "map_of base' k0 = Some w'"
      by blast
    have "\<exists>v'. at (r @ [Key k]) w' = Some v'
            \<and> merge_value (at_opt (r @ [Key k]) (map_of base k0)) v k lang fn = Inr v'"
    proof (rule acts_value [OF _ _ distinct_keys_member [OF dd(2) mem] _ mv ar])
      show "\<exists>v'. at (r @ [Key k]) (PDict base') = Some v'
              \<and> merge_value (at (r @ [Key k]) (PDict base)) v k lang fn = Inr v'"
        if "distinct_keys (PDict items)" "tagged_items langs base"
          "merge_items base items lang fn = Inr base'" "at (r @ [Key k]) (PDict items) = Some v"
        for items base base'
        using "1.IH" that by (simp add: Key)
      show "\<exists>v'. at (r' @ [Key k]) (PDict base') = Some v'
              \<and> merge_value (at (r' @ [Key k]) (PDict base)) v k lang fn = Inr v'"
        if "r = Idx i # r'" "distinct_keys (PDict items)" "tagged_items langs base"
          "merge_items base items lang fn = Inr base'" "at (r' @ [Key k]) (PDict items) = Some v"
        for i r' items base base'
        using "1.IH" that by (simp add: Key)
      show "tagged langs c" if "map_of base k0 = Some c" for c
        using tagged_items_lookup [OF t that] .
    qed
    then show ?thesis
      by (simp add: Key look' at_opt_def)
  qed
qed

text \<open>
  The sequence that a tree has at a path; the empty one where the path leads to nothing
  or to no sequence.
\<close>

definition seq_at :: "step list \<Rightarrow> pyval \<Rightarrow> pyval list" where
  "seq_at p t = (case at p t of None \<Rightarrow> [] | Some v \<Rightarrow> if is_list v then elems_of v else [])"

lemma valid_tree_dict: "valid_tree (PDict d) = (\<forall>(k, v) \<in> set d. valid_tree v)"
  by (induction d) auto

lemma valid_at: "valid_tree t \<Longrightarrow> at p t = Some v \<Longrightarrow> valid_tree v"
proof (induction p t rule: at.induct)
  case (1 v)
  then show ?case by simp
next
  case (2 k p t)
  from "2.prems"(2) obtain c where m: "is_mapping t" and look: "map_of (items_of t) k = Some c"
    and a: "at p c = Some v"
    by (auto split: if_splits option.splits)
  have "valid_tree c"
    using "2.prems"(1) m map_of_SomeD [OF look] by (cases t) (auto simp: valid_tree_dict)
  from "2.IH" [OF m look this a] show ?case .
next
  case (3 i p t)
  from "3.prems"(2) have l: "is_list t" and i: "i < length (elems_of t)"
    and a: "at p (elems_of t ! i) = Some v"
    by (auto split: if_splits)
  have "valid_tree (elems_of t ! i)"
    using "3.prems"(1) l i by (cases t) (auto simp: valid_tree_list list_all_length)
  from "3.IH" [OF _ this a] l i show ?case by simp
qed

lemma array_step:
  assumes d: "distinct_keys (PDict items)" and t: "tagged_items langs base"
    and m: "merge_items base items lang fn = Inr res"
    and a: "at (q @ [Key k]) (PDict items) = Some (PList l)"
  shows "\<exists>dst. at (q @ [Key k]) (PDict res) = Some (PList dst)
           \<and> merge_elems
                (seq_at (q @ [Key k]) (PDict base)
                   @ replicate (length l - length (seq_at (q @ [Key k]) (PDict base))) (PDict []))
                0 l k lang fn = Inr dst"
proof -
  from merge_acts_at [OF d t m a] obtain v' where
    v': "at (q @ [Key k]) (PDict res) = Some v'"
    and mv: "merge_value (at (q @ [Key k]) (PDict base)) (PList l) k lang fn = Inr v'"
    by blast
  let ?old = "at (q @ [Key k]) (PDict base)"
  from mv have c: "is_list (cur_or ?old (PList []))"
    by (auto simp: merge_value_sequence split: if_splits)
  then have "elems_of (cur_or ?old (PList [])) = seq_at (q @ [Key k]) (PDict base)"
    by (cases ?old) (auto simp: seq_at_def cur_or_def)
  with mv c show ?thesis
    by (auto simp: v' merge_value_sequence map_sum_def split: sum.splits)
qed

lemma slot_contents:
  assumes "merge_slot g item k j lang fn = Inr s"
  shows "(is_str item \<longrightarrow> s = PDict (AList.update lang item (slot_of g)))
         \<and> (is_mapping item \<longrightarrow>
               (\<exists>m. merge_nested (slot_of g) item lang fn = Inr m \<and> s = PDict m))
         \<and> (is_str item \<or> is_mapping item)"
  using assms
  by (cases item) (auto simp: merge_slot_def merge_nested_def map_sum_def split: sum.splits)

text \<open>
  The entries that the slot of index \<open>j\<close> had before a merge; none when the sequence
  was shorter.
\<close>

definition earlier_slot :: "pyval list \<Rightarrow> nat \<Rightarrow> pydict" where
  "earlier_slot old j = (if j < length old then items_of (old ! j) else [])"

lemma tagged_at: "tagged langs t \<Longrightarrow> at p t = Some v \<Longrightarrow> tagged langs v"
proof (induction p t rule: at.induct)
  case (1 v)
  then show ?case by simp
next
  case (2 k p t)
  from "2.prems"(2) obtain c where m: "is_mapping t" and look: "map_of (items_of t) k = Some c"
    and a: "at p c = Some v"
    by (auto split: if_splits option.splits)
  have "tagged langs c"
    using tagged_items_lookup [OF tagged_mapping_items [OF "2.prems"(1) m] look] .
  from "2.IH" [OF m look this a] show ?case .
next
  case (3 i p t)
  from "3.prems"(2) have l: "is_list t" and i: "i < length (elems_of t)"
    and a: "at p (elems_of t ! i) = Some v"
    by (auto split: if_splits)
  have "tagged langs (elems_of t ! i)"
    using tagged_sequence_elems [OF "3.prems"(1) l] i unfolding tagged_slots_iff by simp
  from "3.IH" [OF _ this a] l i show ?case by simp
qed

lemma tagged_seq_at: "tagged_items langs base \<Longrightarrow> tagged_slots langs (seq_at p (PDict base))"
proof (cases "at p (PDict base)")
  case None
  then show ?thesis by (simp add: seq_at_def)
next
  case (Some v)
  assume "tagged_items langs base"
  then have "tagged langs v"
    using tagged_at [OF _ Some] by simp
  then show ?thesis
    by (cases v) (simp_all add: seq_at_def Some)
qed

lemma array_law:
  assumes d: "distinct_keys (PDict items)" and t: "tagged_items langs base"
    and m: "merge_items base items lang fn = Inr res"
    and a: "at (q @ [Key k]) (PDict items) = Some (PList l)"
    and old: "old = seq_at (q @ [Key k]) (PDict base)"
  shows "\<exists>dst. at (q @ [Key k]) (PDict res) = Some (PList dst)
           \<and> length dst = max (length old) (length l)
           \<and> (\<forall>j. length l \<le> j \<and> j < length dst \<longrightarrow> dst ! j = old ! j)
           \<and> (\<forall>j. j < length l \<longrightarrow>
                 (is_str (l ! j) \<longrightarrow>
                    dst ! j = PDict (AList.update lang (l ! j) (earlier_slot old j)))
                 \<and> (is_mapping (l ! j) \<longrightarrow>
                      (\<exists>m. merge_nested (earlier_slot old j) (l ! j) lang fn = Inr m
                           \<and> dst ! j = PDict m))
                 \<and> (is_str (l ! j) \<or> is_mapping (l ! j)))"
proof -
  let ?g = "old @ replicate (length l - length old) (PDict [])"
  from array_step [OF d t m a] obtain dst where
    at_res: "at (q @ [Key k]) (PDict res) = Some (PList dst)"
    and me: "merge_elems ?g 0 l k lang fn = Inr dst"
    unfolding old by blast
  have len: "length dst = max (length old) (length l)"
    using merge_elems_length [OF me] by auto
  have ts: "tagged_slots langs old"
    unfolding old using t by (rule tagged_seq_at)
  have keep: "dst ! j = old ! j" if "length l \<le> j" "j < length dst" for j
  proof -
    have "dst ! j = ?g ! j"
      using merge_elems_nth [OF me] that(1) by simp
    moreover have "j < length old"
      using that len by auto
    ultimately show ?thesis
      by (simp add: nth_append)
  qed
  have slot: "(is_str (l ! j) \<longrightarrow>
                    dst ! j = PDict (AList.update lang (l ! j) (earlier_slot old j)))
                 \<and> (is_mapping (l ! j) \<longrightarrow>
                      (\<exists>m. merge_nested (earlier_slot old j) (l ! j) lang fn = Inr m
                           \<and> dst ! j = PDict m))
                 \<and> (is_str (l ! j) \<or> is_mapping (l ! j))"
    if "j < length l" for j
  proof -
    have ms: "merge_slot (?g ! j) (l ! j) k j lang fn = Inr (dst ! j)"
      using merge_elems_nth [OF me] that by simp
    have "slot_of (?g ! j) = earlier_slot old j"
    proof (cases "j < length old")
      case True
      then have "old ! j \<in> set old" by simp
      with ts have "is_mapping (old ! j)"
        unfolding tagged_slots_iff by blast
      then show ?thesis
        using True by (simp add: nth_append slot_of_def earlier_slot_def)
    next
      case False
      then show ?thesis
        using that by (simp add: nth_append slot_of_def earlier_slot_def)
    qed
    with slot_contents [OF ms] show ?thesis
      by simp
  qed
  from at_res len keep slot show ?thesis
    by blast
qed

text \<open>
  How a merge changes a sequence \<open>old\<close> of the accumulator when the file has the array
  \<open>l\<close> at the same path: the result \<open>dst\<close> has the greater of the two lengths, the
  slots beyond the array of the file are untouched, and the slot of every index of the
  array holds the earlier entries of that slot with the element of the file merged in:
  a string under the language tag, an object by the merge itself.
\<close>

definition grown_from :: "pyval list \<Rightarrow> pyval list \<Rightarrow> string \<Rightarrow> string \<Rightarrow> pyval list \<Rightarrow> bool" where
  "grown_from old l lang fn dst =
     (length dst = max (length old) (length l)
      \<and> (\<forall>j. length l \<le> j \<and> j < length dst \<longrightarrow> dst ! j = old ! j)
      \<and> (\<forall>j. j < length l \<longrightarrow>
            (is_str (l ! j) \<longrightarrow> dst ! j = PDict (AList.update lang (l ! j) (earlier_slot old j)))
            \<and> (is_mapping (l ! j) \<longrightarrow>
                 (\<exists>m. merge_nested (earlier_slot old j) (l ! j) lang fn = Inr m
                      \<and> dst ! j = PDict m))
            \<and> (is_str (l ! j) \<or> is_mapping (l ! j))))"

lemma array_grown:
  assumes "distinct_keys t" and "tagged_items langs base"
    and "merge_nested base t lang fn = Inr res"
    and "at (q @ [Key k]) t = Some (PList l)"
  shows "\<exists>dst. at (q @ [Key k]) (PDict res) = Some (PList dst)
           \<and> grown_from (seq_at (q @ [Key k]) (PDict base)) l lang fn dst"
proof -
  from assms(3) obtain items where t: "t = PDict items"
    and m: "merge_items base items lang fn = Inr res"
    by (cases t) (auto simp: merge_nested_def)
  from array_law [OF _ assms(2) m _ refl, of q k l] assms(1,4) show ?thesis
    unfolding grown_from_def t by simp
qed

lemma seq_at_fresh [simp]: "seq_at (q @ [Key k]) (PDict []) = []"
  by (simp add: seq_at_def at_empty)

lemma seq_at_found: "at p t = Some (PList l) \<Longrightarrow> seq_at p t = l"
  by (simp add: seq_at_def)

lemma new_slot_tagged:
  assumes v: "valid_tree item"
    and s: "(is_str item \<longrightarrow> s = PDict (AList.update lang item []))
         \<and> (is_mapping item \<longrightarrow> (\<exists>m. merge_nested [] item lang fn = Inr m \<and> s = PDict m))
         \<and> (is_str item \<or> is_mapping item)"
  shows "tagged [lang] s"
proof (cases "is_mapping item")
  case True
  with s obtain m where m: "merge_nested [] item lang fn = Inr m" and sm: "s = PDict m"
    by blast
  from m True have "merge_items [] (items_of item) lang fn = Inr m"
    by (cases item) (auto simp: merge_nested_def)
  from merge_keeps_tagged(1) [OF _ _ valid_items_of [OF v True] this, of "[lang]"] show ?thesis
    by (simp add: sm)
next
  case False
  with s have "is_str item" "s = PDict (AList.update lang item [])"
    by auto
  then show ?thesis
    by (cases item) auto
qed

lemma run_of_two:
  assumes run: "merge_run [(l1, f1, t1), (l2, f2, t2)] = Inr acc"
    and d: "distinct_keys t1" "distinct_keys t2"
    and a: "at (q @ [Key k]) t1 = Some (PList xs)" "at (q @ [Key k]) t2 = Some (PList ys)"
  shows "\<exists>mid zs. valid_tree (PList xs) \<and> valid_tree (PList ys)
           \<and> grown_from [] xs l1 f1 mid
           \<and> at (q @ [Key k]) (PDict acc) = Some (PList zs)
           \<and> grown_from mid ys l2 f2 zs"
proof -
  from run obtain acc1 where
    v: "validate_tree t1 f1 = Inr ()" "validate_tree t2 f2 = Inr ()"
    and m1: "merge_nested [] t1 l1 f1 = Inr acc1"
    and m2: "merge_nested acc1 t2 l2 f2 = Inr acc"
    by (rule two_files)
  have valid: "valid_tree t1" "valid_tree t2"
    using v by (simp_all only: validate_valid)
  from m1 obtain items where t1: "t1 = PDict items"
    and mi: "merge_items [] items l1 f1 = Inr acc1"
    by (cases t1) (auto simp: merge_nested_def)
  have tg: "tagged_items [l1, l2] acc1"
    using merge_keeps_tagged(1) [OF _ _ _ mi, of "[l1, l2]"] valid(1) by (simp add: t1)
  from array_grown [OF d(1) _ m1 a(1), of "[l1, l2]"] obtain mid where
    mid: "at (q @ [Key k]) (PDict acc1) = Some (PList mid)" "grown_from [] xs l1 f1 mid"
    by auto
  from array_grown [OF d(2) tg m2 a(2)] obtain zs where
    "at (q @ [Key k]) (PDict acc) = Some (PList zs)" "grown_from mid ys l2 f2 zs"
    by (auto simp: seq_at_found [OF mid(1)])
  with mid(2) valid_at [OF valid(1) a(1)] valid_at [OF valid(2) a(2)] show ?thesis
    by blast
qed

lemma grown_length:
  "grown_from old l lang fn dst \<Longrightarrow> length dst = max (length old) (length l)"
  by (simp add: grown_from_def)

lemma grown_keep:
  "grown_from old l lang fn dst \<Longrightarrow> length l \<le> j \<Longrightarrow> j < length dst \<Longrightarrow> dst ! j = old ! j"
  by (simp add: grown_from_def)

lemma grown_new_slot:
  assumes "grown_from old l lang fn dst" and "length old \<le> j" and "j < length l"
  shows "(is_str (l ! j) \<longrightarrow> dst ! j = PDict (AList.update lang (l ! j) []))
         \<and> (is_mapping (l ! j) \<longrightarrow> (\<exists>m. merge_nested [] (l ! j) lang fn = Inr m \<and> dst ! j = PDict m))
         \<and> (is_str (l ! j) \<or> is_mapping (l ! j))"
proof -
  have "earlier_slot old j = []"
    using assms(2) by (simp add: earlier_slot_def)
  moreover from assms(1,3) have
    "(is_str (l ! j) \<longrightarrow> dst ! j = PDict (AList.update lang (l ! j) (earlier_slot old j)))
     \<and> (is_mapping (l ! j) \<longrightarrow>
          (\<exists>m. merge_nested (earlier_slot old j) (l ! j) lang fn = Inr m \<and> dst ! j = PDict m))
     \<and> (is_str (l ! j) \<or> is_mapping (l ! j))"
    unfolding grown_from_def by blast
  ultimately show ?thesis by simp
qed

lemma two_then_five:
  assumes xs: "length xs = 2" and ys: "length ys = 5"
    and g1: "grown_from [] xs la fa mid" and g2: "grown_from mid ys lb fb zs"
    and j: "2 \<le> j" "j < 5"
  shows "length zs = 5
         \<and> (is_str (ys ! j) \<longrightarrow> zs ! j = PDict (AList.update lb (ys ! j) []))
         \<and> (is_mapping (ys ! j) \<longrightarrow> (\<exists>m. merge_nested [] (ys ! j) lb fb = Inr m \<and> zs ! j = PDict m))
         \<and> (is_str (ys ! j) \<or> is_mapping (ys ! j))"
proof -
  have lm: "length mid = 2"
    using grown_length [OF g1] xs by simp
  have "length zs = 5"
    using grown_length [OF g2] lm ys by simp
  moreover have "length mid \<le> j" "j < length ys"
    using lm ys j by simp_all
  from grown_new_slot [OF g2 this] have
    "(is_str (ys ! j) \<longrightarrow> zs ! j = PDict (AList.update lb (ys ! j) []))
         \<and> (is_mapping (ys ! j) \<longrightarrow> (\<exists>m. merge_nested [] (ys ! j) lb fb = Inr m \<and> zs ! j = PDict m))
         \<and> (is_str (ys ! j) \<or> is_mapping (ys ! j))" .
  ultimately show ?thesis by blast
qed

lemma five_then_two:
  assumes xs: "length xs = 2" and ys: "length ys = 5"
    and g1: "grown_from [] ys lb fb mid" and g2: "grown_from mid xs la fa zs"
    and j: "2 \<le> j" "j < 5"
  shows "length zs = 5
         \<and> (is_str (ys ! j) \<longrightarrow> zs ! j = PDict (AList.update lb (ys ! j) []))
         \<and> (is_mapping (ys ! j) \<longrightarrow> (\<exists>m. merge_nested [] (ys ! j) lb fb = Inr m \<and> zs ! j = PDict m))
         \<and> (is_str (ys ! j) \<or> is_mapping (ys ! j))"
proof -
  have lm: "length mid = 5"
    using grown_length [OF g1] ys by simp
  have lz: "length zs = 5"
    using grown_length [OF g2] lm xs by simp
  have "zs ! j = mid ! j"
    using grown_keep [OF g2, of j] xs lz j by simp
  moreover have "length ([] :: pyval list) \<le> j" "j < length ys"
    using ys j by simp_all
  from grown_new_slot [OF g1 this] have
    "(is_str (ys ! j) \<longrightarrow> mid ! j = PDict (AList.update lb (ys ! j) []))
         \<and> (is_mapping (ys ! j) \<longrightarrow> (\<exists>m. merge_nested [] (ys ! j) lb fb = Inr m \<and> mid ! j = PDict m))
         \<and> (is_str (ys ! j) \<or> is_mapping (ys ! j))" .
  ultimately show ?thesis using lz by simp
qed

text \<open>
  A slot that holds the contribution of one file only: for a string the one-entry map
  from the language tag to it, for an object the result of merging it into an empty
  accumulator.
\<close>

definition alone_in_slot :: "pyval \<Rightarrow> string \<Rightarrow> string \<Rightarrow> pyval \<Rightarrow> bool" where
  "alone_in_slot item lang fn s =
     ((is_str item \<longrightarrow> s = PDict [(lang, item)])
      \<and> (is_mapping item \<longrightarrow> (\<exists>m. merge_nested [] item lang fn = Inr m \<and> s = PDict m))
      \<and> (is_str item \<or> is_mapping item))"

lemma alone_in_slot_tagged:
  "valid_tree item \<Longrightarrow> alone_in_slot item lang fn s \<Longrightarrow> tagged [lang] s"
  by (rule new_slot_tagged [where fn = fn]) (simp_all add: alone_in_slot_def)

lemma either_order:
  assumes xs: "length xs = 2" and ys: "length ys = 5"
    and d: "distinct_keys ta" "distinct_keys tb"
    and a: "at (q @ [Key k]) ta = Some (PList xs)" "at (q @ [Key k]) tb = Some (PList ys)"
    and run: "merge_run [(la, fa, ta), (lb, fb, tb)] = Inr acc
         \<or> merge_run [(lb, fb, tb), (la, fa, ta)] = Inr acc"
  shows "\<exists>zs. at (q @ [Key k]) (PDict acc) = Some (PList zs) \<and> length zs = 5
           \<and> valid_tree (PList ys)
           \<and> (\<forall>j. 2 \<le> j \<and> j < 5 \<longrightarrow> alone_in_slot (ys ! j) lb fb (zs ! j))"
  using run
proof
  assume "merge_run [(la, fa, ta), (lb, fb, tb)] = Inr acc"
  from run_of_two [OF this d a] obtain mid zs where
    v: "valid_tree (PList ys)"
    and g: "grown_from [] xs la fa mid" "grown_from mid ys lb fb zs"
    and z: "at (q @ [Key k]) (PDict acc) = Some (PList zs)"
    by blast
  have "alone_in_slot (ys ! j) lb fb (zs ! j)" if "2 \<le> j" "j < 5" for j
    using two_then_five [OF xs ys g that] by (simp add: alone_in_slot_def)
  moreover have "length zs = 5"
    using two_then_five [OF xs ys g, of 2] by simp
  ultimately show ?thesis
    using v z by blast
next
  assume "merge_run [(lb, fb, tb), (la, fa, ta)] = Inr acc"
  from run_of_two [OF this d(2,1) a(2,1)] obtain mid zs where
    v: "valid_tree (PList ys)"
    and g: "grown_from [] ys lb fb mid" "grown_from mid xs la fa zs"
    and z: "at (q @ [Key k]) (PDict acc) = Some (PList zs)"
    by blast
  have "alone_in_slot (ys ! j) lb fb (zs ! j)" if "2 \<le> j" "j < 5" for j
    using five_then_two [OF xs ys g that] by (simp add: alone_in_slot_def)
  moreover have "length zs = 5"
    using five_then_two [OF xs ys g, of 2] by simp
  ultimately show ?thesis
    using v z by blast
qed

text \<open>
  C4. Two files of a run have arrays at the same path of keys, \<open>xs\<close> of length 2 in
  the file of language \<open>la\<close> and \<open>ys\<close> of length 5 in the file of language \<open>lb\<close>;
  the files may have any other keys, and they are merged in either order. Then the merged
  tree has at that path a sequence of length 5, and each of the slots 2, 3 and 4 holds the
  contribution of \<open>lb\<close> only: for a string element the one-entry map from \<open>lb\<close> to
  it, for an object what merging it alone into an empty accumulator gives, with every
  string of the slot under the tag \<open>lb\<close>. In general, when a file with an array \<open>l\<close>
  at a path is merged into the accumulator of any run, the sequence at that path grows
  from the one that was there (none counts as empty) to the greater of the two lengths,
  keeps the slots beyond \<open>l\<close> and merges every element of \<open>l\<close> into the slot of its
  index: a sequence of the accumulator never shrinks.
\<close>

theorem sequence_growth:
  assumes "length xs = 2" and "length ys = 5"
    and "distinct_keys ta" and "distinct_keys tb"
    and "at (q @ [Key k]) ta = Some (PList xs)" and "at (q @ [Key k]) tb = Some (PList ys)"
    and "merge_run [(la, fa, ta), (lb, fb, tb)] = Inr acc
         \<or> merge_run [(lb, fb, tb), (la, fa, ta)] = Inr acc"
  shows "(\<exists>zs. at (q @ [Key k]) (PDict acc) = Some (PList zs) \<and> length zs = 5
           \<and> (\<forall>j\<in>{2, 3, 4}. alone_in_slot (ys ! j) lb fb (zs ! j) \<and> tagged [lb] (zs ! j)))
         \<and> (\<forall>files acc0 t lang fn res p key l.
               merge_run files = Inr acc0 \<and> distinct_keys t
                 \<and> merge_nested acc0 t lang fn = Inr res
                 \<and> at (p @ [Key key]) t = Some (PList l) \<longrightarrow>
               (\<exists>dst. at (p @ [Key key]) (PDict res) = Some (PList dst)
                  \<and> grown_from (seq_at (p @ [Key key]) (PDict acc0)) l lang fn dst))"
proof -
  from either_order [OF assms] obtain zs where
    zs: "at (q @ [Key k]) (PDict acc) = Some (PList zs)" "length zs = 5"
    and v: "valid_tree (PList ys)"
    and sl: "\<And>j. 2 \<le> j \<Longrightarrow> j < 5 \<Longrightarrow> alone_in_slot (ys ! j) lb fb (zs ! j)"
    by blast
  have each: "alone_in_slot (ys ! j) lb fb (zs ! j) \<and> tagged [lb] (zs ! j)"
    if "j \<in> {2, 3, 4}" for j
  proof -
    have j: "2 \<le> j" "j < 5" using that by auto
    have "valid_tree (ys ! j)"
      using v j(2) assms(2) by (simp add: valid_tree_list list_all_length)
    from alone_in_slot_tagged [OF this sl [OF j]] sl [OF j] show ?thesis
      by simp
  qed
  have first: "\<exists>zs. at (q @ [Key k]) (PDict acc) = Some (PList zs) \<and> length zs = 5
           \<and> (\<forall>j\<in>{2, 3, 4}. alone_in_slot (ys ! j) lb fb (zs ! j) \<and> tagged [lb] (zs ! j))"
    using zs each by blast
  have law: "\<exists>dst. at (p @ [Key key]) (PDict res) = Some (PList dst)
                  \<and> grown_from (seq_at (p @ [Key key]) (PDict acc0)) l lang fn dst"
    if "merge_run files = Inr acc0" "distinct_keys t" "merge_nested acc0 t lang fn = Inr res"
      "at (p @ [Key key]) t = Some (PList l)"
    for files acc0 t lang fn res p key l
  proof -
    have "tagged_items (map fst files) acc0"
      using merge_loop_tagged [of "[]" files acc0 "map fst files"] that(1)
      by (simp add: merge_run_def containers_only_def)
    from array_grown [OF that(2) this that(3,4)] show ?thesis .
  qed
  show ?thesis
  proof (intro conjI allI impI)
    show "\<exists>zs. at (q @ [Key k]) (PDict acc) = Some (PList zs) \<and> length zs = 5
           \<and> (\<forall>j\<in>{2, 3, 4}. alone_in_slot (ys ! j) lb fb (zs ! j) \<and> tagged [lb] (zs ! j))"
      by (rule first)
  next
    fix files acc0 t lang fn res p key l
    assume "merge_run files = Inr acc0 \<and> distinct_keys t
                 \<and> merge_nested acc0 t lang fn = Inr res
                 \<and> at (p @ [Key key]) t = Some (PList l)"
    then show "\<exists>dst. at (p @ [Key key]) (PDict res) = Some (PList dst)
                  \<and> grown_from (seq_at (p @ [Key key]) (PDict acc0)) l lang fn dst"
      using law by blast
  qed
qed

text \<open>
  Two files with arrays of lengths 2 and 5 below \<open>menu\<close>, with strings and objects as
  elements and other keys beside them, and their merge.
\<close>

definition short_seq :: "pyval list" where
  "short_seq = [PStr ''a'', PDict [(''x'', PStr ''b'')]]"

definition long_seq :: "pyval list" where
  "long_seq = [PStr ''p'', PDict [(''x'', PStr ''q'')], PStr ''r'', PDict [(''y'', PStr ''s'')],
               PStr ''t'']"

definition seq_en :: pyval where
  "seq_en = PDict [(''title'', PStr ''T''), (''menu'', PDict [(''items'', PList short_seq)])]"

definition seq_ru :: pyval where
  "seq_ru = PDict [(''menu'', PDict [(''items'', PList long_seq), (''more'', PStr ''m'')])]"

definition grown :: "pyval list" where
  "grown = [PDict [(''en'', PStr ''a''), (''ru'', PStr ''p'')],
            PDict [(''x'', PDict [(''en'', PStr ''b''), (''ru'', PStr ''q'')])],
            PDict [(''ru'', PStr ''r'')],
            PDict [(''y'', PDict [(''ru'', PStr ''s'')])],
            PDict [(''ru'', PStr ''t'')]]"

definition seq_en_merged :: pydict where
  "seq_en_merged =
     [(''title'', PDict [(''en'', PStr ''T'')]),
      (''menu'', PDict [(''items'', PList [PDict [(''en'', PStr ''a'')],
                                          PDict [(''x'', PDict [(''en'', PStr ''b'')])]])])]"

definition seq_merged :: pydict where
  "seq_merged =
     [(''title'', PDict [(''en'', PStr ''T'')]),
      (''menu'', PDict [(''items'', PList grown), (''more'', PDict [(''ru'', PStr ''m'')])])]"

theorem sequence_growth_witness:
  "length short_seq = 2 \<and> length long_seq = 5
   \<and> distinct_keys seq_en \<and> distinct_keys seq_ru
   \<and> at ([Key ''menu''] @ [Key ''items'']) seq_en = Some (PList short_seq)
   \<and> at ([Key ''menu''] @ [Key ''items'']) seq_ru = Some (PList long_seq)
   \<and> merge_run [(''en'', ''en.json'', seq_en), (''ru'', ''ru.json'', seq_ru)] = Inr seq_merged
   \<and> at ([Key ''menu''] @ [Key ''items'']) (PDict seq_merged) = Some (PList grown)
   \<and> (\<exists>zs. at ([Key ''menu''] @ [Key ''items'']) (PDict seq_merged) = Some (PList zs)
           \<and> length zs = 5
           \<and> (\<forall>j\<in>{2, 3, 4}. alone_in_slot (long_seq ! j) ''ru'' ''ru.json'' (zs ! j)
                               \<and> tagged [''ru''] (zs ! j)))
   \<and> merge_run [(''en'', ''en.json'', seq_en)] = Inr seq_en_merged
   \<and> merge_nested seq_en_merged seq_ru ''ru'' ''ru.json'' = Inr seq_merged
   \<and> seq_at ([Key ''menu''] @ [Key ''items'']) (PDict seq_en_merged)
        = [PDict [(''en'', PStr ''a'')], PDict [(''x'', PDict [(''en'', PStr ''b'')])]]
   \<and> (\<exists>dst. at ([Key ''menu''] @ [Key ''items'']) (PDict seq_merged) = Some (PList dst)
          \<and> grown_from (seq_at ([Key ''menu''] @ [Key ''items'']) (PDict seq_en_merged))
               long_seq ''ru'' ''ru.json'' dst)"
proof -
  have l: "length short_seq = 2" "length long_seq = 5"
    by (simp_all add: short_seq_def long_seq_def)
  have d: "distinct_keys seq_en" "distinct_keys seq_ru"
    by (simp_all add: seq_en_def seq_ru_def short_seq_def long_seq_def)
  have a: "at ([Key ''menu''] @ [Key ''items'']) seq_en = Some (PList short_seq)"
    "at ([Key ''menu''] @ [Key ''items'']) seq_ru = Some (PList long_seq)"
    "at ([Key ''menu''] @ [Key ''items'']) (PDict seq_merged) = Some (PList grown)"
    by (simp_all add: seq_en_def seq_ru_def seq_merged_def)
  have run: "merge_run [(''en'', ''en.json'', seq_en), (''ru'', ''ru.json'', seq_ru)]
               = Inr seq_merged"
    by (simp add: merge_run_def merge_nested_def merge_items_Cons merge_elems_Cons
        merge_value_def merge_slot_def slot_of_def cur_or_def
        seq_en_def seq_ru_def short_seq_def long_seq_def seq_merged_def grown_def)
  have one: "merge_run [(''en'', ''en.json'', seq_en)] = Inr seq_en_merged"
    by (simp add: merge_run_def merge_nested_def merge_items_Cons merge_elems_Cons
        merge_value_def merge_slot_def slot_of_def cur_or_def
        seq_en_def short_seq_def seq_en_merged_def)
  have next_file: "merge_nested seq_en_merged seq_ru ''ru'' ''ru.json'' = Inr seq_merged"
    by (simp add: merge_nested_def merge_items_Cons merge_elems_Cons
        merge_value_def merge_slot_def slot_of_def cur_or_def
        seq_ru_def long_seq_def seq_en_merged_def seq_merged_def grown_def)
  have before: "seq_at ([Key ''menu''] @ [Key ''items'']) (PDict seq_en_merged)
        = [PDict [(''en'', PStr ''a'')], PDict [(''x'', PDict [(''en'', PStr ''b'')])]]"
    by (simp add: seq_at_def seq_en_merged_def)
  note both = sequence_growth [OF l d a(1,2) disjI1 [OF run]]
  from both have first:
    "\<exists>zs. at ([Key ''menu''] @ [Key ''items'']) (PDict seq_merged) = Some (PList zs)
           \<and> length zs = 5
           \<and> (\<forall>j\<in>{2, 3, 4}. alone_in_slot (long_seq ! j) ''ru'' ''ru.json'' (zs ! j)
                               \<and> tagged [''ru''] (zs ! j))"
    by blast
  from both one d(2) next_file a(2) have law:
    "\<exists>dst. at ([Key ''menu''] @ [Key ''items'']) (PDict seq_merged) = Some (PList dst)
          \<and> grown_from (seq_at ([Key ''menu''] @ [Key ''items'']) (PDict seq_en_merged))
               long_seq ''ru'' ''ru.json'' dst"
    by blast
  from l d a run first one next_file before law show ?thesis
    by blast
qed

section \<open>The leaves of the merged tree under a common shape\<close>

text \<open>
  A shape says of every position whether a string, an object or an array stands there.
  A tree follows a shape when it has a string at a leaf of the shape, an object whose
  every key is a key of the shape, with a value that follows the shape of that key, at an
  object, and an array that is not longer than the one of the shape, element by element,
  at an array. The shape may have keys and elements that the tree does not have.
\<close>

datatype shape = Leaf | Object "(string \<times> shape) list" | Sequence "shape list"


text \<open>The shape of one tree.\<close>

fun shape_of :: "pyval \<Rightarrow> shape"
  and shape_of_items :: "(string \<times> pyval) list \<Rightarrow> (string \<times> shape) list"
  and shape_of_elems :: "pyval list \<Rightarrow> shape list" where
  "shape_of (PDict d) = Object (shape_of_items d)"
| "shape_of (PList l) = Sequence (shape_of_elems l)"
| "shape_of v = Leaf"
| "shape_of_items [] = []"
| "shape_of_items ((k, v) # rest) = (k, shape_of v) # shape_of_items rest"
| "shape_of_elems [] = []"
| "shape_of_elems (v # rest) = shape_of v # shape_of_elems rest"








lemma length_shape_of_elems [simp]: "length (shape_of_elems l) = length l"
  by (induction l) auto




















end
